theory Spec2Isabelle
  imports Main "HOL-Library.Word"
begin

unbundle bit_operations_syntax

section \<open>Machine types\<close>

text \<open>
  The converter is a C program built for an LP64 target: \<open>size_t\<close> is 64 bits wide,
  \<open>int\<close> is 32 bits wide (read with \<open>sint\<close>), \<open>uint8_t\<close> is a byte. The helpers of
  \<open>lib/checked_arith.h\<close> are stated for every word length, since nothing in them depends
  on the width.
\<close>

type_synonym byte = "8 word"
type_synonym size_t = "64 word"
type_synonym c_int = "32 word"

section \<open>Overflow-safe arithmetic (\<open>lib/checked_arith.h\<close>)\<close>

definition SIZE_MAX :: "'a::len word" where
  "SIZE_MAX = - 1"

text \<open>
  \<^verbatim>\<open>if (a == 0 || b <= SIZE_MAX / a) { *out = a * b; return true; } return false;\<close>
  The out-parameter and the boolean become an option.
\<close>

definition checked_mul_size :: "'a::len word \<Rightarrow> 'a word \<Rightarrow> 'a word option" where
  "checked_mul_size a b = (if a = 0 \<or> b \<le> SIZE_MAX div a then Some (a * b) else None)"

text \<open>
  \<^verbatim>\<open>if (a <= SIZE_MAX - b) { *out = a + b; return true; } return false;\<close>
\<close>

definition checked_add_size :: "'a::len word \<Rightarrow> 'a word \<Rightarrow> 'a word option" where
  "checked_add_size a b = (if a \<le> SIZE_MAX - b then Some (a + b) else None)"

section \<open>Pixel buffer model\<close>

text \<open>
  \<^verbatim>\<open>struct image { uint8_t *pixels; int width; int height; int channels; };\<close>
  The pointer is \<open>None\<close> when it is \<open>NULL\<close> and otherwise holds the bytes of the buffer
  it points to.
\<close>

record image =
  pixels :: "byte list option"
  width :: c_int
  height :: c_int
  channels :: c_int

text \<open>
  \<open>malloc\<close> is a parameter of the model: it either fails (\<open>None\<close>) or returns a buffer
  whose contents are not specified. \<open>malloc_spec\<close> says that a returned buffer has
  the requested number of bytes.
\<close>

type_synonym allocator = "size_t \<Rightarrow> byte list option"

definition malloc_spec :: "allocator \<Rightarrow> bool" where
  "malloc_spec malloc \<longleftrightarrow> (\<forall>n buf. malloc n = Some buf \<longrightarrow> length buf = unat n)"

text \<open>An allocator with 4096 bytes to give, used to run the model on concrete inputs.\<close>

definition small_heap :: allocator where
  "small_heap n = (if n \<le> 4096 then Some (replicate (unat n) 0) else None)"

text \<open>The conversion \<^verbatim>\<open>(size_t)x\<close> of an \<open>int\<close>: sign extension.\<close>

definition size_of_int :: "c_int \<Rightarrow> size_t" where
  "size_of_int x = scast x"

definition image_validate_dims :: "image \<Rightarrow> bool" where
  "image_validate_dims img \<longleftrightarrow>
     0 <s width img \<and> 0 <s height img \<and> (channels img = 3 \<or> channels img = 4)"

text \<open>The global \<open>max_pixels\<close> (0 = unlimited) is the first argument.\<close>

definition image_check_max_pixels :: "size_t \<Rightarrow> c_int \<Rightarrow> c_int \<Rightarrow> bool" where
  "image_check_max_pixels max_pixels w h =
     (case checked_mul_size (size_of_int w) (size_of_int h) of
        None \<Rightarrow> False
      | Some pixel_count \<Rightarrow> max_pixels = 0 \<or> pixel_count \<le> max_pixels)"

text \<open>
  \<open>image_alloc_pixels\<close> returns its boolean together with the image as the call leaves it:
  the \<open>pixels\<close> field is assigned only on the path that reaches \<open>malloc\<close>.
\<close>

definition image_alloc_pixels :: "allocator \<Rightarrow> size_t \<Rightarrow> image \<Rightarrow> size_t \<Rightarrow> bool \<times> image" where
  "image_alloc_pixels malloc max_pixels img rowbytes =
     (if \<not> image_validate_dims img \<or> rowbytes = 0 then (False, img)
      else if \<not> image_check_max_pixels max_pixels (width img) (height img) then (False, img)
      else case checked_mul_size rowbytes (size_of_int (height img)) of
        None \<Rightarrow> (False, img)
      | Some total_bytes \<Rightarrow> (malloc total_bytes \<noteq> None, img\<lparr>pixels := malloc total_bytes\<rparr>))"


section \<open>Byte streams\<close>

text \<open>
  Modelled from the spec: the macros \<open>READ_FILE\<close>, \<open>GETC_FILE\<close> and \<open>WRITE_FILE\<close> of
  \<open>lib/stdio_helpers.h\<close>, a header that is not among the sources. The spec describes
  the codecs as reading and writing a byte stream whose failures are truncated data; the
  callers compare the result of \<open>READ_FILE\<close> with the requested length and the result of
  \<open>GETC_FILE\<close> with \<open>EOF\<close>. An input file is the list of its unread bytes:
  \<open>READ_FILE\<close> returns the bytes it could read (fewer than requested at the end of the
  file) and the rest of the stream, \<open>GETC_FILE\<close> one byte or \<open>EOF\<close> (\<open>None\<close>). An
  output file is the list of the bytes written, in order. Opening, seeking and
  writing are taken to succeed.
\<close>

definition READ_FILE :: "nat \<Rightarrow> byte list \<Rightarrow> byte list \<times> byte list" where
  "READ_FILE len f = (take len f, drop len f)"

definition GETC_FILE :: "byte list \<Rightarrow> (byte \<times> byte list) option" where
  "GETC_FILE f = (case f of [] \<Rightarrow> None | c # f' \<Rightarrow> Some (c, f'))"

text \<open>
  \<^verbatim>\<open>if (len == 0) return true; return READ_FILE(buf, len, f) == len;\<close>
  returns the bytes stored in \<open>buf\<close> and the stream after the read.
\<close>

definition read_bytes :: "nat \<Rightarrow> byte list \<Rightarrow> (byte list \<times> byte list) option" where
  "read_bytes len f =
     (if len = 0 then Some ([], f)
      else case READ_FILE len f of (buf, f') \<Rightarrow>
        if length buf = len then Some (buf, f') else None)"

definition read_byte :: "byte list \<Rightarrow> (byte \<times> byte list) option" where
  "read_byte f = GETC_FILE f"

section \<open>Outcomes\<close>

text \<open>
  Every codec entry point returns a \<open>bool\<close>. \<open>Reject\<close> is the return value \<open>false\<close>.
  \<open>Fault\<close> is not a return value: it marks an execution that the C standard leaves
  undefined (an access outside a buffer, a signed overflow), so that the absence of such
  executions can be stated.
\<close>

datatype failure = Reject | Fault

section \<open>QOI codec\<close>

definition QOI_OP_INDEX :: byte where "QOI_OP_INDEX = 0x00"
definition QOI_OP_DIFF :: byte where "QOI_OP_DIFF = 0x40"
definition QOI_OP_LUMA :: byte where "QOI_OP_LUMA = 0x80"
definition QOI_OP_RUN :: byte where "QOI_OP_RUN = 0xc0"
definition QOI_OP_RGB :: byte where "QOI_OP_RGB = 0xfe"
definition QOI_OP_RGBA :: byte where "QOI_OP_RGBA = 0xff"
definition QOI_MASK_2 :: byte where "QOI_MASK_2 = 0xc0"
definition QOI_MAGIC :: "32 word" where "QOI_MAGIC = 0x716f6966"
definition QOI_HEADER_SIZE :: nat where "QOI_HEADER_SIZE = 14"
definition QOI_END_MARKER_SIZE :: nat where "QOI_END_MARKER_SIZE = 8"

text \<open>\<^verbatim>\<open>(uint32_t)p[0] << 24 | (uint32_t)p[1] << 16 | (uint32_t)p[2] << 8 | p[3]\<close>\<close>

definition qoi_read32be :: "byte list \<Rightarrow> 32 word" where
  "qoi_read32be p =
     push_bit 24 (ucast (p ! 0)) OR push_bit 16 (ucast (p ! 1)) OR push_bit 8 (ucast (p ! 2))
       OR ucast (p ! 3)"

text \<open>The four bytes that \<open>qoi_write32be\<close> stores at \<open>p[0..3]\<close>.\<close>

definition qoi_write32be :: "32 word \<Rightarrow> byte list" where
  "qoi_write32be v =
     [ucast (drop_bit 24 v AND 0xff), ucast (drop_bit 16 v AND 0xff),
      ucast (drop_bit 8 v AND 0xff), ucast (v AND 0xff)]"

text \<open>
  A pixel \<^verbatim>\<open>uint8_t px[4]\<close> is the tuple of its four bytes. The hash is computed on
  \<open>int\<close>: \<^verbatim>\<open>(r * 3 + g * 5 + b * 7 + a * 11) % 64\<close>.
\<close>

type_synonym rgba = "byte \<times> byte \<times> byte \<times> byte"

fun qoi_hash :: "rgba \<Rightarrow> nat" where
  "qoi_hash (r, g, b, a) = (unat r * 3 + unat g * 5 + unat b * 7 + unat a * 11) mod 64"

fun px_bytes :: "rgba \<Rightarrow> byte list" where
  "px_bytes (r, g, b, a) = [r, g, b, a]"

subsection \<open>Decoder\<close>

text \<open>
  The state of the decoding loop: the array \<open>index\<close>, the running pixel \<open>px\<close>, the
  cursor \<open>px_pos\<close> and the buffer \<open>img->pixels\<close>.
\<close>

record qoi_decoder =
  dec_index :: "rgba list"
  dec_px :: rgba
  dec_pos :: size_t
  dec_pixels :: "byte list"

text \<open>
  \<^verbatim>\<open>memcpy(img->pixels + px_pos, px, (size_t)img->channels); px_pos += (size_t)img->channels;\<close>
  A copy that would leave the buffer is a \<open>Fault\<close>.
\<close>

definition qoi_put_px :: "size_t \<Rightarrow> qoi_decoder \<Rightarrow> failure + qoi_decoder" where
  "qoi_put_px ch st =
     (let pos = unat (dec_pos st); n = unat ch; buf = dec_pixels st in
      if pos + n \<le> length buf
      then Inr (st\<lparr>dec_pixels := take pos buf @ take n (px_bytes (dec_px st)) @ drop (pos + n) buf,
                   dec_pos := dec_pos st + ch\<rparr>)
      else Inl Fault)"

text \<open>
  The tail of the loop body, reached by every operation but a run:
  \<^verbatim>\<open>memcpy(index[qoi_hash(px[0], px[1], px[2], px[3])], px, 4);\<close> and the copy of the pixel.
\<close>

definition qoi_emit :: "size_t \<Rightarrow> byte list \<Rightarrow> qoi_decoder \<Rightarrow> failure + (qoi_decoder \<times> byte list)" where
  "qoi_emit ch f st =
     (case qoi_put_px ch (st\<lparr>dec_index := (dec_index st)[qoi_hash (dec_px st) := dec_px st]\<rparr>) of
        Inl e \<Rightarrow> Inl e
      | Inr st' \<Rightarrow> Inr (st', f))"

text \<open>\<^verbatim>\<open>while (run-- > 0 && px_pos < px_end) { memcpy(...); px_pos += ...; }\<close>\<close>

fun qoi_run_loop :: "size_t \<Rightarrow> size_t \<Rightarrow> nat \<Rightarrow> qoi_decoder \<Rightarrow> failure + qoi_decoder" where
  "qoi_run_loop ch px_end 0 st = Inr st"
| "qoi_run_loop ch px_end (Suc run) st =
     (if dec_pos st < px_end
      then case qoi_put_px ch st of Inl e \<Rightarrow> Inl e | Inr st' \<Rightarrow> qoi_run_loop ch px_end run st'
      else Inr st)"

text \<open>
  One iteration of the decoding loop after the byte \<open>b1\<close> has been read: the chain of
  tests on \<open>b1\<close> in the order of the source. The additions to \<open>px\<close> are additions on
  \<open>uint8_t\<close>: the \<open>int\<close> value is reduced modulo 256 when it is stored, which is the
  arithmetic of \<open>byte\<close>.
\<close>

definition qoi_decode_op ::
  "size_t \<Rightarrow> size_t \<Rightarrow> byte \<Rightarrow> byte list \<Rightarrow> qoi_decoder \<Rightarrow> failure + (qoi_decoder \<times> byte list)" where
  "qoi_decode_op ch px_end b1 f st =
     (case dec_px st of (r, g, b, a) \<Rightarrow>
      if b1 = QOI_OP_RGB then
        (case read_bytes 3 f of
           None \<Rightarrow> Inl Reject
         | Some (bs, f') \<Rightarrow> qoi_emit ch f' (st\<lparr>dec_px := (bs ! 0, bs ! 1, bs ! 2, a)\<rparr>))
      else if b1 = QOI_OP_RGBA then
        (case read_bytes 4 f of
           None \<Rightarrow> Inl Reject
         | Some (bs, f') \<Rightarrow> qoi_emit ch f' (st\<lparr>dec_px := (bs ! 0, bs ! 1, bs ! 2, bs ! 3)\<rparr>))
      else if b1 AND QOI_MASK_2 = QOI_OP_INDEX then
        qoi_emit ch f (st\<lparr>dec_px := dec_index st ! unat b1\<rparr>)
      else if b1 AND QOI_MASK_2 = QOI_OP_DIFF then
        qoi_emit ch f (st\<lparr>dec_px :=
          (r + (drop_bit 4 b1 AND 0x03) - 2, g + (drop_bit 2 b1 AND 0x03) - 2,
           b + (b1 AND 0x03) - 2, a)\<rparr>)
      else if b1 AND QOI_MASK_2 = QOI_OP_LUMA then
        (case read_byte f of
           None \<Rightarrow> Inl Reject
         | Some (b2, f') \<Rightarrow>
             let vg = (b1 AND 0x3f) - 32 in
             qoi_emit ch f' (st\<lparr>dec_px :=
               (r + (vg - 8 + (drop_bit 4 b2 AND 0x0f)), g + vg,
                b + (vg - 8 + (b2 AND 0x0f)), a)\<rparr>))
      else if b1 AND QOI_MASK_2 = QOI_OP_RUN then
        (case qoi_run_loop ch px_end (unat (b1 AND 0x3f) + 1) st of
           Inl e \<Rightarrow> Inl e
         | Inr st' \<Rightarrow> Inr (st', f))
      else qoi_emit ch f st)"

lemma read_bytes_length:
  "read_bytes len f = Some (bs, f') \<Longrightarrow> length f' \<le> length f"
  by (auto simp: read_bytes_def READ_FILE_def split: if_splits)

lemma read_byte_length:
  "read_byte f = Some (c, f') \<Longrightarrow> length f' < length f"
  by (auto simp: read_byte_def GETC_FILE_def split: list.splits)

lemma qoi_emit_stream:
  "qoi_emit ch f st = Inr (st', f') \<Longrightarrow> f' = f"
  by (auto simp: qoi_emit_def split: sum.splits)

lemma qoi_decode_op_length:
  assumes "qoi_decode_op ch px_end b1 f st = Inr (st', f')"
  shows "length f' \<le> length f"
proof -
  obtain r g b a where px: "dec_px st = (r, g, b, a)"
    by (cases "dec_px st") auto
  show ?thesis
    using assms unfolding qoi_decode_op_def px Let_def prod.case
    by (auto split: if_splits option.splits sum.splits
        dest!: qoi_emit_stream read_bytes_length read_byte_length)
qed

text \<open>
  \<^verbatim>\<open>while (px_pos < px_end) { if (!read_byte(f, &b1)) return false; ... }\<close>
  The loop returns the final state and the unread rest of the stream. Every iteration
  consumes at least the byte \<open>b1\<close>, which is why the loop ends on every input.
\<close>

function qoi_decode_loop ::
  "size_t \<Rightarrow> size_t \<Rightarrow> byte list \<Rightarrow> qoi_decoder \<Rightarrow> failure + (qoi_decoder \<times> byte list)" where
  "qoi_decode_loop ch px_end f st =
     (if dec_pos st < px_end then
        (case read_byte f of
           None \<Rightarrow> Inl Reject
         | Some (b1, f1) \<Rightarrow>
             (case qoi_decode_op ch px_end b1 f1 st of
                Inl e \<Rightarrow> Inl e
              | Inr (st', f2) \<Rightarrow> qoi_decode_loop ch px_end f2 st'))
      else Inr (st, f))"
  by pat_completeness auto
termination
proof (relation "measure (\<lambda>(ch, px_end, f, st). length f)")
  show "wf (measure (\<lambda>(ch, px_end, f, st). length f))" by simp
next
  fix ch px_end :: size_t and f f1 f2 :: "byte list" and st st' :: qoi_decoder
    and x2 x2a :: "byte \<times> byte list" and b1 :: byte and y :: "qoi_decoder \<times> byte list"
  assume "read_byte f = Some x2" "(b1, f1) = x2"
    "qoi_decode_op ch px_end b1 f1 st = Inr y" "(st', f2) = y"
  then have "length f1 < length f" "length f2 \<le> length f1"
    by (auto dest: read_byte_length qoi_decode_op_length)
  then show "((ch, px_end, f2, st'), (ch, px_end, f, st)) \<in> measure (\<lambda>(ch, px_end, f, st). length f)"
    by simp
qed

declare qoi_decode_loop.simps [simp del]

text \<open>
  \<open>qoi_read\<close> on the bytes of the file. The result also carries the unread rest of the
  stream, which the source drops with \<open>fclose\<close>. The field \<open>img->channels\<close> is the
  header byte converted to \<open>int\<close>; the \<open>uint32_t\<close> dimensions are compared with
  \<open>INT_MAX\<close> as unsigned numbers and then stored in the \<open>int\<close> fields.
\<close>

definition qoi_read_stream ::
  "allocator \<Rightarrow> size_t \<Rightarrow> byte list \<Rightarrow> failure + (image \<times> byte list)" where
  "qoi_read_stream malloc max_pixels f =
     (case read_bytes QOI_HEADER_SIZE f of
        None \<Rightarrow> Inl Reject
      | Some (header, f1) \<Rightarrow>
        if qoi_read32be header \<noteq> QOI_MAGIC then Inl Reject
        else
          let w = qoi_read32be (drop 4 header);
              h = qoi_read32be (drop 8 header);
              chans = (ucast (header ! 12) :: c_int)
          in
          if w = 0 \<or> h = 0 \<or> w > 0x7fffffff \<or> h > 0x7fffffff then Inl Reject
          else if chans \<noteq> 3 \<and> chans \<noteq> 4 then Inl Reject
          else
            (case checked_mul_size (ucast w) (ucast h :: size_t) of
               None \<Rightarrow> Inl Reject
             | Some pixel_count \<Rightarrow>
               (case checked_mul_size pixel_count (size_of_int chans) of
                  None \<Rightarrow> Inl Reject
                | Some pixel_bytes \<Rightarrow>
                  if \<not> image_check_max_pixels max_pixels w h then Inl Reject
                  else
                    (case malloc pixel_bytes of
                       None \<Rightarrow> Inl Reject
                     | Some buf \<Rightarrow>
                       (case qoi_decode_loop (size_of_int chans) (pixel_count * size_of_int chans) f1
                               \<lparr>dec_index = replicate 64 (0, 0, 0, 0), dec_px = (0, 0, 0, 255),
                                dec_pos = 0, dec_pixels = buf\<rparr> of
                          Inl e \<Rightarrow> Inl e
                        | Inr (st, f2) \<Rightarrow>
                            Inr (\<lparr>pixels = Some (dec_pixels st), width = w, height = h,
                                  channels = chans\<rparr>, f2))))))"

definition qoi_read :: "allocator \<Rightarrow> size_t \<Rightarrow> byte list \<Rightarrow> failure + image" where
  "qoi_read malloc max_pixels f = map_sum id fst (qoi_read_stream malloc max_pixels f)"

subsection \<open>Encoder\<close>

text \<open>
  The state of the encoding loop: the array \<open>index\<close>, \<open>px_prev\<close>, \<open>run\<close>, and the
  bytes \<open>data[0..p)\<close> written so far. The writes \<open>data[p++] = v\<close> are consecutive, so
  the output is a list that grows at its end.
\<close>

record qoi_encoder =
  enc_index :: "rgba list"
  enc_prev :: rgba
  enc_run :: nat
  enc_data :: "byte list"

text \<open>
  \<^verbatim>\<open>memcpy(px, img->pixels + i * (size_t)img->channels, (size_t)img->channels);\<close>
  \<^verbatim>\<open>if (img->channels == 3) px[3] = 255;\<close>
\<close>

definition qoi_load_px :: "byte list \<Rightarrow> nat \<Rightarrow> nat \<Rightarrow> rgba" where
  "qoi_load_px buf ch i =
     (buf ! (i * ch), buf ! (i * ch + 1), buf ! (i * ch + 2),
      if ch = 3 then 255 else buf ! (i * ch + 3))"

text \<open>\<^verbatim>\<open>data[p++] = (uint8_t)(QOI_OP_RUN | (run - 1)); run = 0;\<close>\<close>

definition qoi_flush_run :: "qoi_encoder \<Rightarrow> qoi_encoder" where
  "qoi_flush_run st =
     st\<lparr>enc_data := enc_data st @ [QOI_OP_RUN OR word_of_nat (enc_run st - 1)], enc_run := 0\<rparr>"

text \<open>
  The bytes written for a pixel that is neither a repetition nor found in the index.
  The differences are \<open>int\<close> differences of the promoted bytes, as in the source:
  they are not reduced modulo 256.
\<close>

definition qoi_encode_new :: "rgba \<Rightarrow> rgba \<Rightarrow> byte list" where
  "qoi_encode_new px px_prev =
     (case px of (r, g, b, a) \<Rightarrow> case px_prev of (pr, pg, pb, pa) \<Rightarrow>
      if a = pa then
        (let vr = uint r - uint pr; vg = uint g - uint pg; vb = uint b - uint pb;
             vg_r = vr - vg; vg_b = vb - vg
         in
         if vr > - 3 \<and> vr < 2 \<and> vg > - 3 \<and> vg < 2 \<and> vb > - 3 \<and> vb < 2 then
           [word_of_int (0x40 OR push_bit 4 (vr + 2) OR push_bit 2 (vg + 2) OR (vb + 2))]
         else if vg_r > - 9 \<and> vg_r < 8 \<and> vg > - 33 \<and> vg < 32 \<and> vg_b > - 9 \<and> vg_b < 8 then
           [word_of_int (0x80 OR (vg + 32)), word_of_int (push_bit 4 (vg_r + 8) OR (vg_b + 8))]
         else [QOI_OP_RGB, r, g, b])
      else [QOI_OP_RGBA, r, g, b, a])"

text \<open>The body of the encoding loop for the pixel \<open>px\<close>; \<open>is_last\<close> is \<^verbatim>\<open>i == pixel_count - 1\<close>.\<close>

definition qoi_encode_px :: "bool \<Rightarrow> rgba \<Rightarrow> qoi_encoder \<Rightarrow> qoi_encoder" where
  "qoi_encode_px is_last px st =
     (if px = enc_prev st then
        (let st1 = st\<lparr>enc_run := enc_run st + 1\<rparr> in
         if enc_run st1 = 62 \<or> is_last then qoi_flush_run st1 else st1)
      else
        (let st1 = (if enc_run st > 0 then qoi_flush_run st else st);
             idx = qoi_hash px
         in
         if enc_index st1 ! idx = px then
           st1\<lparr>enc_data := enc_data st1 @ [QOI_OP_INDEX OR word_of_nat idx]\<rparr>
         else
           st1\<lparr>enc_index := (enc_index st1)[idx := px],
               enc_data := enc_data st1 @ qoi_encode_new px (enc_prev st1)\<rparr>))
     \<lparr>enc_prev := px\<rparr>"

text \<open>
  \<^verbatim>\<open>for (size_t i = 0; i < pixel_count; i++) { ... }\<close>
  Reading a pixel beyond the end of \<open>img->pixels\<close> is a \<open>Fault\<close>.
\<close>

function qoi_encode_loop ::
  "byte list \<Rightarrow> nat \<Rightarrow> nat \<Rightarrow> nat \<Rightarrow> qoi_encoder \<Rightarrow> failure + qoi_encoder" where
  "qoi_encode_loop buf ch pixel_count i st =
     (if i < pixel_count then
        (if i * ch + ch \<le> length buf
         then qoi_encode_loop buf ch pixel_count (Suc i)
                (qoi_encode_px (i = pixel_count - 1) (qoi_load_px buf ch i) st)
         else Inl Fault)
      else Inr st)"
  by pat_completeness auto
termination
  by (relation "measure (\<lambda>(buf, ch, pixel_count, i, st). pixel_count - i)") auto

declare qoi_encode_loop.simps [simp del]

definition qoi_header :: "image \<Rightarrow> byte list" where
  "qoi_header img =
     qoi_write32be QOI_MAGIC @ qoi_write32be (width img) @ qoi_write32be (height img)
       @ [ucast (channels img), 1]"

definition qoi_end_marker :: "byte list" where
  "qoi_end_marker = [0, 0, 0, 0, 0, 0, 0, 1]"

text \<open>
  \<open>qoi_write\<close> returns the bytes written to the file. A \<open>NULL\<close> pixel pointer is a
  \<open>Fault\<close>.
\<close>

definition qoi_write :: "allocator \<Rightarrow> image \<Rightarrow> failure + byte list" where
  "qoi_write malloc img =
     (if \<not> image_validate_dims img then Inl Reject
      else
        (case checked_mul_size (size_of_int (width img)) (size_of_int (height img)) of
           None \<Rightarrow> Inl Reject
         | Some pixel_count \<Rightarrow>
           (case checked_mul_size pixel_count (size_of_int (channels img) + 1) of
              None \<Rightarrow> Inl Reject
            | Some data_bytes \<Rightarrow>
              (case checked_add_size (word_of_nat QOI_HEADER_SIZE) data_bytes of
                 None \<Rightarrow> Inl Reject
               | Some max_size0 \<Rightarrow>
                 (case checked_add_size max_size0 (word_of_nat QOI_END_MARKER_SIZE) of
                    None \<Rightarrow> Inl Reject
                  | Some max_size \<Rightarrow>
                    (case malloc max_size of
                       None \<Rightarrow> Inl Reject
                     | Some data \<Rightarrow>
                       (case pixels img of
                          None \<Rightarrow> Inl Fault
                        | Some buf \<Rightarrow>
                          (case qoi_encode_loop buf (unat (size_of_int (channels img)))
                                  (unat pixel_count) 0
                                  \<lparr>enc_index = replicate 64 (0, 0, 0, 0),
                                   enc_prev = (0, 0, 0, 255), enc_run = 0,
                                   enc_data = qoi_header img\<rparr> of
                             Inl e \<Rightarrow> Inl e
                           | Inr st \<Rightarrow> Inr (enc_data st @ qoi_end_marker)))))))))"

section \<open>BMP codec\<close>

text \<open>
  \<^verbatim>\<open>#pragma pack(push, 1)\<close> \<^verbatim>\<open>struct bmp_file_header\<close> and \<^verbatim>\<open>struct bmp_info_header\<close>.
  The two \<open>int32_t\<close> fields are read with \<open>sint\<close>.
\<close>

record bmp_file_header =
  fh_type :: "16 word"
  fh_size :: "32 word"
  fh_reserved1 :: "16 word"
  fh_reserved2 :: "16 word"
  fh_offset :: "32 word"

record bmp_info_header =
  ih_size :: "32 word"
  ih_width :: "32 word"
  ih_height :: "32 word"
  ih_planes :: "16 word"
  ih_bit_count :: "16 word"
  ih_compression :: "32 word"
  ih_image_size :: "32 word"
  ih_x_pels_per_meter :: "32 word"
  ih_y_pels_per_meter :: "32 word"
  ih_clr_used :: "32 word"
  ih_clr_important :: "32 word"

text \<open>
  The source reads and writes the two structures as raw memory. Their bytes are those
  of the packed structures on a little-endian machine, the targets the \<open>Makefile\<close> builds
  for: 14 and 40 bytes, every field at the offset given by the fields before it, least
  significant byte first.
\<close>

definition le16 :: "byte list \<Rightarrow> 16 word" where
  "le16 p = ucast (p ! 0) OR push_bit 8 (ucast (p ! 1))"

definition le32 :: "byte list \<Rightarrow> 32 word" where
  "le32 p = ucast (p ! 0) OR push_bit 8 (ucast (p ! 1)) OR push_bit 16 (ucast (p ! 2))
     OR push_bit 24 (ucast (p ! 3))"

definition le16_bytes :: "16 word \<Rightarrow> byte list" where
  "le16_bytes v = [ucast v, ucast (drop_bit 8 v)]"

definition le32_bytes :: "32 word \<Rightarrow> byte list" where
  "le32_bytes v = [ucast v, ucast (drop_bit 8 v), ucast (drop_bit 16 v), ucast (drop_bit 24 v)]"

definition bmp_file_header_of :: "byte list \<Rightarrow> bmp_file_header" where
  "bmp_file_header_of p =
     \<lparr>fh_type = le16 p, fh_size = le32 (drop 2 p), fh_reserved1 = le16 (drop 6 p),
      fh_reserved2 = le16 (drop 8 p), fh_offset = le32 (drop 10 p)\<rparr>"

definition bmp_info_header_of :: "byte list \<Rightarrow> bmp_info_header" where
  "bmp_info_header_of p =
     \<lparr>ih_size = le32 p, ih_width = le32 (drop 4 p), ih_height = le32 (drop 8 p),
      ih_planes = le16 (drop 12 p), ih_bit_count = le16 (drop 14 p),
      ih_compression = le32 (drop 16 p), ih_image_size = le32 (drop 20 p),
      ih_x_pels_per_meter = le32 (drop 24 p), ih_y_pels_per_meter = le32 (drop 28 p),
      ih_clr_used = le32 (drop 32 p), ih_clr_important = le32 (drop 36 p)\<rparr>"

definition bmp_file_header_bytes :: "bmp_file_header \<Rightarrow> byte list" where
  "bmp_file_header_bytes fh =
     le16_bytes (fh_type fh) @ le32_bytes (fh_size fh) @ le16_bytes (fh_reserved1 fh)
       @ le16_bytes (fh_reserved2 fh) @ le32_bytes (fh_offset fh)"

definition bmp_info_header_bytes :: "bmp_info_header \<Rightarrow> byte list" where
  "bmp_info_header_bytes ih =
     le32_bytes (ih_size ih) @ le32_bytes (ih_width ih) @ le32_bytes (ih_height ih)
       @ le16_bytes (ih_planes ih) @ le16_bytes (ih_bit_count ih)
       @ le32_bytes (ih_compression ih) @ le32_bytes (ih_image_size ih)
       @ le32_bytes (ih_x_pels_per_meter ih) @ le32_bytes (ih_y_pels_per_meter ih)
       @ le32_bytes (ih_clr_used ih) @ le32_bytes (ih_clr_important ih)"

definition INT_MAX :: int where
  "INT_MAX = 2147483647"

definition INT32_MIN :: c_int where
  "INT32_MIN = 0x80000000"

subsection \<open>Reading\<close>

text \<open>
  The body of the inner loop of \<open>bmp_read\<close> for the pixel \<open>x\<close> of a row:
  \<^verbatim>\<open>dst[x * img->channels + 0] = row[x * bmp_channels + 2];\<close> and so on, where \<open>dst\<close>
  is \<open>img->pixels + dst\<close>. The indices are computed on \<open>int\<close>: an index beyond
  \<open>INT_MAX\<close> is a signed overflow, and an index outside \<open>row\<close> or outside the pixel
  buffer an invalid access; both are a \<open>Fault\<close>.
\<close>

definition bmp_unpack_px ::
  "nat \<Rightarrow> nat \<Rightarrow> byte list \<Rightarrow> nat \<Rightarrow> nat \<Rightarrow> byte list \<Rightarrow> failure + byte list" where
  "bmp_unpack_px ch bch row dst x pix =
     (let top = (if ch = 4 then 3 else 2) in
      if INT_MAX < int (x * ch + top) \<or> INT_MAX < int (x * bch + top) then Inl Fault
      else if length row \<le> x * bch + top \<or> length pix \<le> dst + x * ch + top then Inl Fault
      else
        let pix1 = pix[dst + x * ch := row ! (x * bch + 2),
                       dst + x * ch + 1 := row ! (x * bch + 1),
                       dst + x * ch + 2 := row ! (x * bch)]
        in Inr (if ch = 4 then pix1[dst + x * ch + 3 := row ! (x * bch + 3)] else pix1))"

text \<open>\<^verbatim>\<open>for (int x = 0; x < img->width; x++) { ... }\<close>\<close>

function bmp_unpack_row ::
  "nat \<Rightarrow> nat \<Rightarrow> nat \<Rightarrow> byte list \<Rightarrow> nat \<Rightarrow> nat \<Rightarrow> byte list \<Rightarrow> failure + byte list" where
  "bmp_unpack_row w ch bch row dst x pix =
     (if x < w then
        (case bmp_unpack_px ch bch row dst x pix of
           Inl e \<Rightarrow> Inl e
         | Inr pix' \<Rightarrow> bmp_unpack_row w ch bch row dst (Suc x) pix')
      else Inr pix)"
  by pat_completeness auto
termination
  by (relation "measure (\<lambda>(w, ch, bch, row, dst, x, pix). w - x)") auto

declare bmp_unpack_row.simps [simp del]

text \<open>
  \<^verbatim>\<open>for (int y = 0; y < img->height; y++) { ... }\<close>: the row is read from the file and
  unpacked into row \<open>dst_y\<close> of the image. The product \<^verbatim>\<open>dst_y * rowbytes\<close> is below
  \<^verbatim>\<open>rowbytes * height\<close>, which \<open>image_alloc_pixels\<close> has checked, and is computed
  on \<open>nat\<close>.
\<close>

function bmp_read_rows ::
  "bool \<Rightarrow> nat \<Rightarrow> nat \<Rightarrow> nat \<Rightarrow> nat \<Rightarrow> nat \<Rightarrow> nat \<Rightarrow> nat \<Rightarrow> byte list \<Rightarrow> byte list
     \<Rightarrow> failure + byte list" where
  "bmp_read_rows top_down h w ch bch rowbytes bmp_rowbytes y f pix =
     (if y < h then
        (let dst_y = (if top_down then y else h - 1 - y) in
         case READ_FILE bmp_rowbytes f of (row, f') \<Rightarrow>
           if length row \<noteq> bmp_rowbytes then Inl Reject
           else
             (case bmp_unpack_row w ch bch row (dst_y * rowbytes) 0 pix of
                Inl e \<Rightarrow> Inl e
              | Inr pix' \<Rightarrow>
                  bmp_read_rows top_down h w ch bch rowbytes bmp_rowbytes (Suc y) f' pix'))
      else Inr pix)"
  by pat_completeness auto
termination
  by (relation "measure (\<lambda>(top_down, h, w, ch, bch, rowbytes, bmp_rowbytes, y, f, pix). h - y)")
    auto

declare bmp_read_rows.simps [simp del]

text \<open>
  \<open>bmp_read\<close> on the bytes of the file. The test \<^verbatim>\<open>ih.width > INT_MAX\<close> compares an
  \<open>int32_t\<close> with \<open>INT_MAX\<close>. \<open>fseek\<close> to the pixel offset leaves the bytes of the file
  from that offset on (none when the offset is beyond the end).
\<close>

definition bmp_read :: "allocator \<Rightarrow> size_t \<Rightarrow> byte list \<Rightarrow> failure + image" where
  "bmp_read malloc max_pixels file =
     (case READ_FILE 14 file of (fhb, f1) \<Rightarrow>
      case READ_FILE 40 f1 of (ihb, f2) \<Rightarrow>
      if length fhb \<noteq> 14 \<or> length ihb \<noteq> 40 then Inl Reject
      else
        let fh = bmp_file_header_of fhb; ih = bmp_info_header_of ihb in
        if fh_type fh \<noteq> 0x4D42 then Inl Reject
        else if ih_compression ih \<noteq> 0 \<or> (ih_bit_count ih \<noteq> 24 \<and> ih_bit_count ih \<noteq> 32)
          then Inl Reject
        else if ih_width ih \<le>s 0 \<or> INT_MAX < sint (ih_width ih) \<or> ih_height ih = 0
            \<or> ih_height ih = INT32_MIN
          then Inl Reject
        else
          let top_down = (ih_height ih <s 0);
              img = \<lparr>pixels = None, width = ih_width ih,
                     height = (if top_down then - ih_height ih else ih_height ih),
                     channels = (if ih_bit_count ih = 32 then 4 else 3)\<rparr>
          in
          if \<not> image_validate_dims img then Inl Reject
          else if \<not> image_check_max_pixels max_pixels (width img) (height img) then Inl Reject
          else
            (case checked_mul_size (size_of_int (width img)) (size_of_int (channels img)) of
               None \<Rightarrow> Inl Reject
             | Some rowbytes \<Rightarrow>
               (case image_alloc_pixels malloc max_pixels img rowbytes of
                  (ok, img1) \<Rightarrow>
                  (case pixels img1 of
                     None \<Rightarrow> Inl Reject
                   | Some pix \<Rightarrow>
                     if \<not> ok then Inl Reject
                     else
                       let bmp_channels = unat (ih_bit_count ih) div 8 in
                       (case checked_mul_size (size_of_int (width img))
                               (word_of_nat bmp_channels) of
                          None \<Rightarrow> Inl Reject
                        | Some raw_rowbytes \<Rightarrow>
                          (case checked_add_size raw_rowbytes 3 of
                             None \<Rightarrow> Inl Reject
                           | Some tmp_rowbytes \<Rightarrow>
                             let bmp_rowbytes = tmp_rowbytes AND NOT 3 in
                             (case malloc bmp_rowbytes of
                                None \<Rightarrow> Inl Reject
                              | Some row \<Rightarrow>
                                (case bmp_read_rows top_down (nat (sint (height img)))
                                        (nat (sint (width img))) (nat (sint (channels img)))
                                        bmp_channels (unat rowbytes) (unat bmp_rowbytes) 0
                                        (drop (unat (fh_offset fh)) file) pix of
                                   Inl e \<Rightarrow> Inl e
                                 | Inr pix' \<Rightarrow> Inr (img\<lparr>pixels := Some pix'\<rparr>)))))))))"

subsection \<open>Writing\<close>

text \<open>
  The body of the inner loop of \<open>bmp_write\<close>:
  \<^verbatim>\<open>row[x * 3 + 0] = src[x * img->channels + 2];\<close> and so on, where \<open>src\<close> is
  \<open>img->pixels + yoff\<close>.
\<close>

definition bmp_pack_px :: "nat \<Rightarrow> byte list \<Rightarrow> nat \<Rightarrow> nat \<Rightarrow> byte list \<Rightarrow> failure + byte list" where
  "bmp_pack_px ch buf yoff x row =
     (if INT_MAX < int (x * 3 + 2) \<or> INT_MAX < int (x * ch + 2) then Inl Fault
      else if length row \<le> x * 3 + 2 \<or> length buf \<le> yoff + x * ch + 2 then Inl Fault
      else Inr (row[x * 3 := buf ! (yoff + x * ch + 2),
                    x * 3 + 1 := buf ! (yoff + x * ch + 1),
                    x * 3 + 2 := buf ! (yoff + x * ch)]))"

function bmp_pack_row ::
  "nat \<Rightarrow> nat \<Rightarrow> byte list \<Rightarrow> nat \<Rightarrow> nat \<Rightarrow> byte list \<Rightarrow> failure + byte list" where
  "bmp_pack_row w ch buf yoff x row =
     (if x < w then
        (case bmp_pack_px ch buf yoff x row of
           Inl e \<Rightarrow> Inl e
         | Inr row' \<Rightarrow> bmp_pack_row w ch buf yoff (Suc x) row')
      else Inr row)"
  by pat_completeness auto
termination
  by (relation "measure (\<lambda>(w, ch, buf, yoff, x, row). w - x)") auto

declare bmp_pack_row.simps [simp del]

text \<open>
  \<^verbatim>\<open>for (int y = img->height - 1; y >= 0; y--) { ... }\<close>: the argument \<open>Suc y\<close> counts the
  rows still to write, the next one being row \<open>y\<close>. The row buffer is reused from one row
  to the next; \<open>out\<close> is the file written so far.
\<close>

fun bmp_write_rows ::
  "nat \<Rightarrow> nat \<Rightarrow> nat \<Rightarrow> byte list \<Rightarrow> nat \<Rightarrow> byte list \<Rightarrow> byte list \<Rightarrow> failure + byte list" where
  "bmp_write_rows w ch src_rowbytes buf 0 row out = Inr out"
| "bmp_write_rows w ch src_rowbytes buf (Suc y) row out =
     (case bmp_pack_row w ch buf (y * src_rowbytes) 0 row of
        Inl e \<Rightarrow> Inl e
      | Inr row' \<Rightarrow> bmp_write_rows w ch src_rowbytes buf y row' (out @ row'))"

text \<open>\<^verbatim>\<open>calloc(1, n)\<close>: as \<open>malloc\<close>, with every byte zero.\<close>

definition calloc :: "allocator \<Rightarrow> size_t \<Rightarrow> byte list option" where
  "calloc malloc n = map_option (map (\<lambda>_. 0)) (malloc n)"

text \<open>\<open>bmp_write\<close> returns the bytes written to the file.\<close>

definition bmp_write :: "allocator \<Rightarrow> image \<Rightarrow> failure + byte list" where
  "bmp_write malloc img =
     (if \<not> image_validate_dims img then Inl Reject
      else
        (case checked_mul_size (size_of_int (width img)) 3 of
           None \<Rightarrow> Inl Reject
         | Some raw_rowbytes \<Rightarrow>
           (case checked_add_size raw_rowbytes 3 of
              None \<Rightarrow> Inl Reject
            | Some tmp_rowbytes \<Rightarrow>
              let bmp_rowbytes = tmp_rowbytes AND NOT 3 in
              if bmp_rowbytes = 0 then Inl Reject
              else
                (case checked_mul_size bmp_rowbytes (size_of_int (height img)) of
                   None \<Rightarrow> Inl Reject
                 | Some image_size \<Rightarrow>
                   if image_size > 0xFFFFFFFF - (14 + 40) then Inl Reject
                   else
                     let fh = \<lparr>fh_type = 0x4D42, fh_size = ucast (14 + 40 + image_size),
                                fh_reserved1 = 0, fh_reserved2 = 0, fh_offset = 14 + 40\<rparr>;
                         ih = \<lparr>ih_size = 40, ih_width = width img, ih_height = height img,
                                ih_planes = 1, ih_bit_count = 24, ih_compression = 0,
                                ih_image_size = ucast image_size, ih_x_pels_per_meter = 0,
                                ih_y_pels_per_meter = 0, ih_clr_used = 0,
                                ih_clr_important = 0\<rparr>
                     in
                     (case calloc malloc bmp_rowbytes of
                        None \<Rightarrow> Inl Reject
                      | Some row \<Rightarrow>
                        (case checked_mul_size (size_of_int (width img))
                                (size_of_int (channels img)) of
                           None \<Rightarrow> Inl Reject
                         | Some src_rowbytes \<Rightarrow>
                           (case pixels img of
                              None \<Rightarrow> Inl Fault
                            | Some buf \<Rightarrow>
                              bmp_write_rows (nat (sint (width img)))
                                (nat (sint (channels img))) (unat src_rowbytes) buf
                                (nat (sint (height img))) row
                                (bmp_file_header_bytes fh @ bmp_info_header_bytes ih))))))))"

section \<open>Invariants\<close>

subsection \<open>Invariants of the decoder\<close>

text \<open>
  \<open>dec_at ch px_end st xs\<close>: the decoder state \<open>st\<close> has written the bytes \<open>xs\<close>,
  a whole number of pixels, at the start of a buffer of \<open>px_end\<close> bytes, and its cursor
  stands behind them.
\<close>

definition dec_at :: "size_t \<Rightarrow> size_t \<Rightarrow> qoi_decoder \<Rightarrow> byte list \<Rightarrow> bool" where
  "dec_at ch px_end st xs \<longleftrightarrow>
     (ch = 3 \<or> ch = 4) \<and> take (length xs) (dec_pixels st) = xs
     \<and> unat (dec_pos st) = length xs \<and> length (dec_pixels st) = unat px_end
     \<and> unat ch dvd length xs \<and> unat ch dvd unat px_end \<and> length xs \<le> unat px_end"

text \<open>
  \<open>qoi_sim buf ch n i st D\<close>: the encoder, in state \<open>st\<close> before pixel \<open>i\<close> of the \<open>n\<close>
  pixels of \<open>buf\<close>, and the decoder, in state \<open>D\<close>, agree. They hold the same index
  and the same previous pixel; the last \<open>enc_run st\<close> pixels, all equal to the previous
  pixel, are counted but not yet written, and the decoder has reproduced the pixels
  before them.
\<close>

definition qoi_sim :: "byte list \<Rightarrow> nat \<Rightarrow> nat \<Rightarrow> nat \<Rightarrow> qoi_encoder \<Rightarrow> qoi_decoder \<Rightarrow> bool" where
  "qoi_sim buf ch n i st D \<longleftrightarrow>
     (ch = 3 \<or> ch = 4) \<and> length buf = n * ch \<and> n * ch < 2 ^ 64 \<and> i \<le> n
     \<and> enc_run st \<le> i \<and> enc_run st < 62 \<and> (i < n \<or> enc_run st = 0)
     \<and> (\<forall>j. i - enc_run st \<le> j \<and> j < i \<longrightarrow> qoi_load_px buf ch j = enc_prev st)
     \<and> dec_index D = enc_index st \<and> length (enc_index st) = 64 \<and> dec_px D = enc_prev st
     \<and> dec_at (word_of_nat ch) (word_of_nat (n * ch)) D (take ((i - enc_run st) * ch) buf)"

subsection \<open>Views of a pixel buffer\<close>

text \<open>The three bytes of a pixel in the file (blue first) and in memory (red first).\<close>

definition bgr_at :: "byte list \<Rightarrow> nat \<Rightarrow> byte list" where
  "bgr_at buf k = [buf ! (k + 2), buf ! (k + 1), buf ! k]"

definition rgb_at :: "byte list \<Rightarrow> nat \<Rightarrow> byte list" where
  "rgb_at buf k = [buf ! k, buf ! (k + 1), buf ! (k + 2)]"

text \<open>Row \<open>y\<close> of an image as it is written to the file, without the padding.\<close>

definition bmp_row :: "byte list \<Rightarrow> nat \<Rightarrow> nat \<Rightarrow> nat \<Rightarrow> byte list" where
  "bmp_row buf w ch y = concat (map (\<lambda>j. bgr_at buf (y * (w * ch) + j * ch)) [0..<w])"

text \<open>
  The first \<open>n\<close> pixels of a buffer of \<open>ch\<close> bytes per pixel, reduced to their red,
  green and blue bytes: a fourth (alpha) byte, if there is one, is left out.
\<close>

definition rgb_pixels :: "byte list \<Rightarrow> nat \<Rightarrow> nat \<Rightarrow> byte list" where
  "rgb_pixels buf ch n = concat (map (\<lambda>i. rgb_at buf (i * ch)) [0..<n])"

subsection \<open>Operations of a QOI stream\<close>

text \<open>
  The layout of a stream of operations, as the chain of tests of the decoder on the
  first byte \<open>b1\<close> of an operation determines it. \<open>qoi_op_size b1\<close> is the number of
  bytes of the operation, \<open>b1\<close> included: three more bytes after \<open>QOI_OP_RGB\<close>, four
  after \<open>QOI_OP_RGBA\<close>, one after a \<open>QOI_OP_LUMA\<close> tag, none otherwise.
  \<open>qoi_op_pixels b1\<close> is the number of pixels the operation stands for: a run stands for
  \<^verbatim>\<open>(b1 & 0x3f) + 1\<close> pixels, every other operation for one. A list \<open>ops\<close> of byte
  lists is a list of whole operations when each of them has the size its first byte
  asks for; \<open>qoi_ops_pixels ops\<close> is the number of pixels they stand for together.
\<close>

definition qoi_op_size :: "byte \<Rightarrow> nat" where
  "qoi_op_size b1 =
     (if b1 = QOI_OP_RGB then 4
      else if b1 = QOI_OP_RGBA then 5
      else if b1 AND QOI_MASK_2 = QOI_OP_LUMA then 2
      else 1)"

definition qoi_op_pixels :: "byte \<Rightarrow> nat" where
  "qoi_op_pixels b1 =
     (if b1 \<noteq> QOI_OP_RGB \<and> b1 \<noteq> QOI_OP_RGBA \<and> b1 AND QOI_MASK_2 = QOI_OP_RUN
      then unat (b1 AND 0x3f) + 1
      else 1)"

definition qoi_ops_wf :: "byte list list \<Rightarrow> bool" where
  "qoi_ops_wf ops \<longleftrightarrow> (\<forall>op \<in> set ops. op \<noteq> [] \<and> length op = qoi_op_size (hd op))"

definition qoi_ops_pixels :: "byte list list \<Rightarrow> nat" where
  "qoi_ops_pixels ops = sum_list (map (\<lambda>op. qoi_op_pixels (hd op)) ops)"

section \<open>Properties of the checked arithmetic\<close>

lemma unat_SIZE_MAX: "unat (SIZE_MAX :: 'a::len word) = 2 ^ LENGTH('a) - 1"
  by (simp add: SIZE_MAX_def unsigned_minus_1_eq_mask mask_eq_exp_minus_1)

lemma mul_fits_iff:
  fixes a b :: "'a::len word"
  shows "(a = 0 \<or> b \<le> SIZE_MAX div a) \<longleftrightarrow> unat a * unat b < 2 ^ LENGTH('a)"
proof (cases "a = 0")
  case True then show ?thesis by simp
next
  case False
  then have pos: "0 < unat a" by (simp add: unat_gt_0)
  have p2: "(0::nat) < 2 ^ LENGTH('a)" by simp
  have "b \<le> SIZE_MAX div a \<longleftrightarrow> unat b \<le> (2 ^ LENGTH('a) - 1) div unat a"
    by (simp add: word_le_nat_alt unat_div unat_SIZE_MAX)
  also have "\<dots> \<longleftrightarrow> unat b * unat a \<le> 2 ^ LENGTH('a) - 1"
    using pos by (simp add: less_eq_div_iff_mult_less_eq)
  also have "\<dots> \<longleftrightarrow> unat a * unat b < 2 ^ LENGTH('a)"
    using p2 by (simp only: mult.commute) linarith
  finally show ?thesis using False by simp
qed

lemma add_fits_iff:
  fixes a b :: "'a::len word"
  shows "a \<le> SIZE_MAX - b \<longleftrightarrow> unat a + unat b < 2 ^ LENGTH('a)"
proof -
  have "unat (SIZE_MAX - b) = 2 ^ LENGTH('a) - 1 - unat b"
    by (metis SIZE_MAX_def unat_SIZE_MAX unat_sub word_n1_ge)
  moreover have "unat b < 2 ^ LENGTH('a)" by simp
  ultimately show ?thesis
    unfolding word_le_nat_alt by linarith
qed

lemma checked_mul_size_eq:
  fixes a b :: "'a::len word"
  shows "checked_mul_size a b =
    (if unat a * unat b < 2 ^ LENGTH('a) then Some (a * b) else None)"
  unfolding checked_mul_size_def mul_fits_iff ..

lemma checked_add_size_eq:
  fixes a b :: "'a::len word"
  shows "checked_add_size a b =
    (if unat a + unat b < 2 ^ LENGTH('a) then Some (a + b) else None)"
  unfolding checked_add_size_def add_fits_iff ..

lemma checked_mul_size_Some_iff:
  fixes a b :: "'a::len word"
  shows "checked_mul_size a b = Some r \<longleftrightarrow> unat r = unat a * unat b"
proof (cases "unat a * unat b < 2 ^ LENGTH('a)")
  case True
  then have "unat (a * b) = unat a * unat b"
    by (simp add: unat_word_ariths)
  with True show ?thesis
    by (auto simp: checked_mul_size_eq word_unat_eq_iff)
next
  case False
  moreover have "unat r < 2 ^ LENGTH('a)" by simp
  ultimately have "unat r \<noteq> unat a * unat b" by metis
  with False show ?thesis
    by (simp add: checked_mul_size_eq)
qed

lemma checked_mul_size_None_iff:
  fixes a b :: "'a::len word"
  shows "checked_mul_size a b = None \<longleftrightarrow> 2 ^ LENGTH('a) \<le> unat a * unat b"
  by (simp add: checked_mul_size_eq not_less)

lemma checked_add_size_Some_iff:
  fixes a b :: "'a::len word"
  shows "checked_add_size a b = Some r \<longleftrightarrow> unat r = unat a + unat b"
proof (cases "unat a + unat b < 2 ^ LENGTH('a)")
  case True
  then have "unat (a + b) = unat a + unat b"
    by (simp add: unat_word_ariths)
  with True show ?thesis
    by (auto simp: checked_add_size_eq word_unat_eq_iff)
next
  case False
  moreover have "unat r < 2 ^ LENGTH('a)" by simp
  ultimately have "unat r \<noteq> unat a + unat b" by metis
  with False show ?thesis
    by (simp add: checked_add_size_eq)
qed

lemma checked_add_size_None_iff:
  fixes a b :: "'a::len word"
  shows "checked_add_size a b = None \<longleftrightarrow> 2 ^ LENGTH('a) \<le> unat a + unat b"
  by (simp add: checked_add_size_eq not_less)

text \<open>
  Claim C2. \<open>checked_mul_size a b\<close> returns \<open>r\<close> exactly when \<open>r\<close> is the
  mathematical product of \<open>a\<close> and \<open>b\<close>, and fails exactly when that product is not
  representable in the word; \<open>checked_add_size\<close> does the same for the sum. A wrapped
  value is never returned, at any word length.
\<close>

theorem checked_arith_exact:
  fixes a b r :: "'a::len word"
  shows "(checked_mul_size a b = Some r \<longleftrightarrow> unat r = unat a * unat b)
       \<and> (checked_mul_size a b = None \<longleftrightarrow> 2 ^ LENGTH('a) \<le> unat a * unat b)
       \<and> (checked_add_size a b = Some r \<longleftrightarrow> unat r = unat a + unat b)
       \<and> (checked_add_size a b = None \<longleftrightarrow> 2 ^ LENGTH('a) \<le> unat a + unat b)"
  by (simp only: checked_mul_size_Some_iff checked_mul_size_None_iff
        checked_add_size_Some_iff checked_add_size_None_iff)

theorem checked_arith_exact_witness:
  "checked_mul_size (4294967296 :: size_t) 4294967295 = Some 18446744069414584320
   \<and> checked_mul_size (4294967296 :: size_t) 4294967296 = None
   \<and> checked_add_size (18446744073709551615 :: size_t) 0 = Some 18446744073709551615
   \<and> checked_add_size (18446744073709551615 :: size_t) 1 = None"
  using checked_arith_exact [of "4294967296 :: size_t" 4294967295 18446744069414584320]
    checked_arith_exact [of "4294967296 :: size_t" 4294967296 0]
    checked_arith_exact [of "18446744073709551615 :: size_t" 0 18446744073709551615]
    checked_arith_exact [of "18446744073709551615 :: size_t" 1 0]
  by simp


section \<open>Properties of the pixel buffer model\<close>

lemma sint_c_int_bound: "sint (x :: c_int) < 2147483648"
  using sint_lt [of x] by simp

lemma unat_size_of_int:
  assumes "0 \<le> sint x"
  shows "unat (size_of_int x) = nat (sint x)"
proof -
  have "sint x < 2 ^ 64"
    using sint_c_int_bound [of x] by simp
  with assms have "take_bit 64 (sint x) = sint x"
    by (simp only: take_bit_int_eq_self)
  moreover have "unat (size_of_int x) = nat (take_bit 64 (sint x))"
    unfolding size_of_int_def scast_eq
    by (simp only: unat_eq_nat_uint uint_word_of_int_eq) simp
  ultimately show ?thesis by simp
qed

lemma c_int_product_fits:
  assumes "0 \<le> sint w" "0 \<le> sint h"
  shows "unat (size_of_int w) * unat (size_of_int h) < 2 ^ 64"
proof -
  have "nat (sint w) < 2 ^ 31" "nat (sint h) < 2 ^ 31"
    using sint_c_int_bound [of w] sint_c_int_bound [of h] by simp_all
  then have "nat (sint w) * nat (sint h) < 2 ^ 31 * 2 ^ 31"
    by (intro mult_strict_mono) simp_all
  also have "\<dots> < (2::nat) ^ 64" by simp
  finally show ?thesis using assms by (simp add: unat_size_of_int)
qed

lemma image_check_max_pixels_iff:
  "image_check_max_pixels c w h \<longleftrightarrow>
     unat (size_of_int w) * unat (size_of_int h) < 2 ^ 64 \<and>
     (c = 0 \<or> unat (size_of_int w) * unat (size_of_int h) \<le> unat c)"
  by (auto simp: image_check_max_pixels_def checked_mul_size_eq word_le_nat_alt
        unat_word_ariths)

lemma image_check_max_pixels_nonneg:
  assumes "0 \<le> sint w" "0 \<le> sint h"
  shows "image_check_max_pixels c w h \<longleftrightarrow> c = 0 \<or> sint w * sint h \<le> uint c"
proof -
  have "unat (size_of_int w) * unat (size_of_int h) = nat (sint w * sint h)"
    using assms by (simp add: unat_size_of_int nat_mult_distrib)
  moreover have "0 \<le> sint w * sint h" using assms by simp
  ultimately show ?thesis
    using c_int_product_fits [OF assms]
    by (simp add: image_check_max_pixels_iff nat_le_iff)
qed

text \<open>
  Claim C3. \<open>image_check_max_pixels\<close> multiplies the two dimensions, converted to
  \<open>size_t\<close>, with the checked multiply. It returns false when the product does not fit,
  and otherwise returns true exactly when the ceiling is 0 or the product is at most the
  ceiling. For positive dimensions the product is the product of the two integers and
  always fits. Positive dimensions with product 101 are rejected under ceiling 100 and
  accepted under ceiling 0.
\<close>

theorem image_check_max_pixels_spec:
  "(image_check_max_pixels c w h \<longleftrightarrow>
      unat (size_of_int w) * unat (size_of_int h) < 2 ^ 64 \<and>
      (c = 0 \<or> unat (size_of_int w) * unat (size_of_int h) \<le> unat c))
   \<and> (0 <s w \<and> 0 <s h \<longrightarrow>
        unat (size_of_int w) * unat (size_of_int h) = nat (sint w * sint h)
        \<and> (image_check_max_pixels c w h \<longleftrightarrow> c = 0 \<or> sint w * sint h \<le> uint c))
   \<and> (0 <s w \<and> 0 <s h \<and> sint w * sint h = 101 \<longrightarrow>
        \<not> image_check_max_pixels 100 w h \<and> image_check_max_pixels 0 w h)"
proof (intro conjI impI)
  show "image_check_max_pixels c w h \<longleftrightarrow>
      unat (size_of_int w) * unat (size_of_int h) < 2 ^ 64 \<and>
      (c = 0 \<or> unat (size_of_int w) * unat (size_of_int h) \<le> unat c)"
    by (rule image_check_max_pixels_iff)
next
  assume "0 <s w \<and> 0 <s h"
  then have nn: "0 \<le> sint w" "0 \<le> sint h" by (simp_all add: word_sless_alt)
  show "unat (size_of_int w) * unat (size_of_int h) = nat (sint w * sint h)"
    using nn by (simp add: unat_size_of_int nat_mult_distrib)
  show "image_check_max_pixels c w h \<longleftrightarrow> c = 0 \<or> sint w * sint h \<le> uint c"
    using nn by (rule image_check_max_pixels_nonneg)
next
  assume a: "0 <s w \<and> 0 <s h \<and> sint w * sint h = 101"
  then have nn: "0 \<le> sint w" "0 \<le> sint h" by (simp_all add: word_sless_alt)
  from a show "\<not> image_check_max_pixels 100 w h"
    by (simp add: image_check_max_pixels_nonneg [OF nn])
  show "image_check_max_pixels 0 w h"
    by (simp add: image_check_max_pixels_nonneg [OF nn])
qed

theorem image_check_max_pixels_spec_witness:
  "0 <s (101 :: c_int) \<and> 0 <s (1 :: c_int) \<and> sint (101 :: c_int) * sint (1 :: c_int) = 101
   \<and> \<not> image_check_max_pixels 100 101 1 \<and> image_check_max_pixels 0 101 1
   \<and> image_check_max_pixels 101 101 1"
  using image_check_max_pixels_spec [of 100 101 1] image_check_max_pixels_spec [of 101 101 1]
  by (simp add: word_sless_alt)

lemma small_heap_spec: "malloc_spec small_heap"
  by (simp add: malloc_spec_def small_heap_def)

text \<open>
  Claim C4, as stated, fails: \<open>image_alloc_pixels\<close> reports every failure with the same
  value \<open>false\<close>. Invalid dimensions, an exceeded ceiling, an overflowing size and a
  failed allocation all give \<open>False\<close>, and leave the image as it was.
\<close>

theorem image_alloc_pixels_indistinct:
  "image_alloc_pixels small_heap 100 \<lparr>pixels = None, width = 0, height = 1, channels = 3\<rparr> 3
     = (False, \<lparr>pixels = None, width = 0, height = 1, channels = 3\<rparr>)
   \<and> image_alloc_pixels small_heap 100 \<lparr>pixels = None, width = 101, height = 1, channels = 3\<rparr> 303
     = (False, \<lparr>pixels = None, width = 101, height = 1, channels = 3\<rparr>)
   \<and> image_alloc_pixels small_heap 100 \<lparr>pixels = None, width = 1, height = 2, channels = 3\<rparr>
        9223372036854775808
     = (False, \<lparr>pixels = None, width = 1, height = 2, channels = 3\<rparr>)
   \<and> image_alloc_pixels small_heap 100 \<lparr>pixels = None, width = 100, height = 1, channels = 3\<rparr> 5000
     = (False, \<lparr>pixels = None, width = 100, height = 1, channels = 3\<rparr>)"
  by (simp add: image_alloc_pixels_def image_validate_dims_def image_check_max_pixels_def
      checked_mul_size_def SIZE_MAX_def size_of_int_def small_heap_def word_sless_alt
      word_le_nat_alt unat_div)

lemma image_alloc_pixels_eq:
  "image_alloc_pixels malloc c img rowbytes =
     (if image_validate_dims img \<and> rowbytes \<noteq> 0
         \<and> image_check_max_pixels c (width img) (height img)
         \<and> unat rowbytes * nat (sint (height img)) < 2 ^ 64
      then (malloc (word_of_nat (unat rowbytes * nat (sint (height img)))) \<noteq> None,
            img\<lparr>pixels := malloc (word_of_nat (unat rowbytes * nat (sint (height img))))\<rparr>)
      else (False, img))"
proof (cases "image_validate_dims img")
  case False
  then show ?thesis by (simp add: image_alloc_pixels_def)
next
  case True
  then have "0 \<le> sint (height img)"
    by (simp add: image_validate_dims_def word_sless_alt)
  then have h: "unat (size_of_int (height img)) = nat (sint (height img))"
    by (rule unat_size_of_int)
  have "rowbytes * size_of_int (height img)
      = word_of_nat (unat rowbytes * unat (size_of_int (height img)))"
    by simp
  then show ?thesis
    using True by (simp add: image_alloc_pixels_def checked_mul_size_eq h)
qed

text \<open>
  Claim C4, amended. \<open>image_alloc_pixels\<close> checks the dimensions (and that the row size is
  not 0), then the pixel ceiling, then multiplies the row size by the height with the
  checked multiply and allocates exactly that many bytes. It returns true exactly when all
  the checks pass and the allocation succeeds; every failure is the one value false.
\<close>

theorem image_alloc_pixels_spec:
  "image_alloc_pixels malloc c img rowbytes =
     (if image_validate_dims img \<and> rowbytes \<noteq> 0
         \<and> image_check_max_pixels c (width img) (height img)
         \<and> unat rowbytes * nat (sint (height img)) < 2 ^ 64
      then (malloc (word_of_nat (unat rowbytes * nat (sint (height img)))) \<noteq> None,
            img\<lparr>pixels := malloc (word_of_nat (unat rowbytes * nat (sint (height img))))\<rparr>)
      else (False, img))"
  by (rule image_alloc_pixels_eq)

theorem image_alloc_pixels_spec_witness:
  "image_alloc_pixels small_heap 100 \<lparr>pixels = None, width = 2, height = 2, channels = 3\<rparr> 6
     = (True, \<lparr>pixels = Some (replicate 12 0), width = 2, height = 2, channels = 3\<rparr>)"
  using image_alloc_pixels_spec [of small_heap 100
      "\<lparr>pixels = None, width = 2, height = 2, channels = 3\<rparr>" 6]
  by (simp add: image_validate_dims_def image_check_max_pixels_def checked_mul_size_def
      SIZE_MAX_def size_of_int_def small_heap_def word_sless_alt word_le_nat_alt unat_div)

section \<open>Properties of the QOI decoder\<close>

subsection \<open>Reading the stream\<close>

lemma read_byte_Cons [simp]: "read_byte (c # f) = Some (c, f)"
  by (simp add: read_byte_def GETC_FILE_def)

lemma read_byte_Nil [simp]: "read_byte [] = None"
  by (simp add: read_byte_def GETC_FILE_def)

lemma read_bytes_append:
  "length bs = n \<Longrightarrow> read_bytes n (bs @ f) = Some (bs, f)"
  by (auto simp: read_bytes_def READ_FILE_def)

lemma read_bytes_SomeD:
  assumes "read_bytes n f = Some (bs, f')"
  shows "f = bs @ f' \<and> length bs = n"
  using assms by (auto simp: read_bytes_def READ_FILE_def split: if_splits)

lemma read_byte_SomeD:
  "read_byte f = Some (c, f') \<Longrightarrow> f = c # f'"
  by (auto simp: read_byte_def GETC_FILE_def split: list.splits)

lemma unat_ch: "ch = 3 \<or> ch = 4 \<Longrightarrow> unat (ch :: size_t) = 3 \<or> unat ch = 4"
  by auto

lemma dvd_step_le:
  fixes c :: nat
  assumes "c dvd p" "c dvd e" "p < e"
  shows "p + c \<le> e"
proof -
  from assms obtain k n where "p = c * k" "e = c * n" unfolding dvd_def by blast
  with assms(3) have "k < n" by simp
  then have "c * (k + 1) \<le> c * n" by (intro mult_le_mono) simp_all
  then show ?thesis using \<open>p = c * k\<close> \<open>e = c * n\<close> by simp
qed

lemma length_take_px_bytes:
  "n \<le> 4 \<Longrightarrow> length (take n (px_bytes px)) = n"
  by (cases px) simp

lemma qoi_put_px_ok:
  assumes inv: "dec_at ch px_end st xs" and lt: "dec_pos st < px_end"
  shows "\<exists>st'. qoi_put_px ch st = Inr st'
     \<and> dec_at ch px_end st' (xs @ take (unat ch) (px_bytes (dec_px st)))
     \<and> dec_index st' = dec_index st \<and> dec_px st' = dec_px st"
proof -
  let ?n = "unat ch" and ?pos = "unat (dec_pos st)" and ?buf = "dec_pixels st"
  let ?pxb = "take ?n (px_bytes (dec_px st))"
  from inv have ch: "?n = 3 \<or> ?n = 4" by (auto simp: dec_at_def)
  then have len_pxb: "length ?pxb = ?n" by (intro length_take_px_bytes) auto
  from inv have pos: "?pos = length xs" and len: "length ?buf = unat px_end"
    and pre: "take (length xs) ?buf = xs"
    and dvd: "?n dvd length xs" "?n dvd unat px_end"
    by (auto simp: dec_at_def)
  from lt have "?pos < unat px_end" by (simp add: word_less_nat_alt)
  with dvd pos have fits: "length xs + ?n \<le> unat px_end"
    by (intro dvd_step_le) simp_all
  have "unat px_end < 2 ^ 64" using unsigned_less [of px_end] by simp
  with fits pos have no_wrap: "unat (dec_pos st + ch) = length xs + ?n"
    by (simp add: unat_word_ariths)
  let ?st' = "st\<lparr>dec_pixels := take ?pos ?buf @ ?pxb @ drop (?pos + ?n) ?buf,
                  dec_pos := dec_pos st + ch\<rparr>"
  have put: "qoi_put_px ch st = Inr ?st'"
    using fits pos len by (simp add: qoi_put_px_def Let_def)
  have "dec_at ch px_end ?st' (xs @ ?pxb)"
    using inv fits pos len pre len_pxb no_wrap dvd
    by (simp add: dec_at_def)
  with put show ?thesis by auto
qed


lemma dec_at_px [simp]: "dec_at ch px_end (st\<lparr>dec_px := p\<rparr>) xs = dec_at ch px_end st xs"
  by (simp add: dec_at_def)

lemma dec_at_index [simp]: "dec_at ch px_end (st\<lparr>dec_index := i\<rparr>) xs = dec_at ch px_end st xs"
  by (simp add: dec_at_def)

lemma dec_at_length: "dec_at ch px_end st xs \<Longrightarrow> length xs \<le> unat px_end"
  by (simp add: dec_at_def)

lemma dec_at_pos_less:
  "dec_at ch px_end st xs \<Longrightarrow> dec_pos st < px_end \<longleftrightarrow> length xs < unat px_end"
  by (simp add: dec_at_def word_less_nat_alt)

lemma dec_at_full:
  assumes "dec_at ch px_end st xs" "\<not> dec_pos st < px_end"
  shows "dec_pixels st = xs \<and> dec_pos st = px_end"
proof -
  from assms have "length xs = unat px_end"
    using dec_at_pos_less [OF assms(1)] dec_at_length [OF assms(1)] by simp
  moreover from assms(1) have "take (length xs) (dec_pixels st) = xs"
    "length (dec_pixels st) = unat px_end" "unat (dec_pos st) = length xs"
    by (simp_all add: dec_at_def)
  ultimately show ?thesis by (simp add: word_unat_eq_iff)
qed

lemma qoi_run_loop_ok:
  assumes "dec_at ch px_end st xs"
  shows "\<exists>st' m. qoi_run_loop ch px_end n st = Inr st' \<and> m \<le> n
     \<and> dec_at ch px_end st' (xs @ concat (replicate m (take (unat ch) (px_bytes (dec_px st)))))
     \<and> (m < n \<longrightarrow> \<not> dec_pos st' < px_end)
     \<and> dec_index st' = dec_index st \<and> dec_px st' = dec_px st"
  using assms
proof (induction n arbitrary: st xs)
  case 0
  then show ?case by simp
next
  case (Suc n)
  let ?pxb = "take (unat ch) (px_bytes (dec_px st))"
  show ?case
  proof (cases "dec_pos st < px_end")
    case False
    with Suc.prems show ?thesis
      by (intro exI [of _ st] exI [of _ 0]) simp
  next
    case True
    from qoi_put_px_ok [OF Suc.prems True] obtain st1 where
      put: "qoi_put_px ch st = Inr st1" and inv1: "dec_at ch px_end st1 (xs @ ?pxb)"
      and same: "dec_index st1 = dec_index st" "dec_px st1 = dec_px st"
      by blast
    from Suc.IH [OF inv1] obtain st' m where
      run: "qoi_run_loop ch px_end n st1 = Inr st'" and m: "m \<le> n"
      and inv': "dec_at ch px_end st' ((xs @ ?pxb) @ concat (replicate m ?pxb))"
      and stop: "m < n \<longrightarrow> \<not> dec_pos st' < px_end"
      and same': "dec_index st' = dec_index st1" "dec_px st' = dec_px st1"
      unfolding same by blast
    show ?thesis
      using True put run m inv' stop same same'
      by (intro exI [of _ st'] exI [of _ "Suc m"]) simp
  qed
qed

lemma qoi_emit_ok:
  assumes "dec_at ch px_end st xs" "dec_pos st < px_end"
  shows "\<exists>st'. qoi_emit ch f st = Inr (st', f)
     \<and> dec_at ch px_end st' (xs @ take (unat ch) (px_bytes (dec_px st)))
     \<and> dec_index st' = (dec_index st)[qoi_hash (dec_px st) := dec_px st]
     \<and> dec_px st' = dec_px st"
proof -
  let ?st = "st\<lparr>dec_index := (dec_index st)[qoi_hash (dec_px st) := dec_px st]\<rparr>"
  have "dec_at ch px_end ?st xs" "dec_pos ?st < px_end" using assms by simp_all
  from qoi_put_px_ok [OF this] show ?thesis
    by (auto simp: qoi_emit_def)
qed

lemma qoi_emit_px_ok:
  assumes "dec_at ch px_end st xs" "dec_pos st < px_end"
  shows "\<exists>st'. qoi_emit ch f (st\<lparr>dec_px := p\<rparr>) = Inr (st', f)
     \<and> dec_at ch px_end st' (xs @ take (unat ch) (px_bytes p))
     \<and> dec_index st' = (dec_index st)[qoi_hash p := p]
     \<and> dec_px st' = p"
proof -
  have "dec_at ch px_end (st\<lparr>dec_px := p\<rparr>) xs" "dec_pos (st\<lparr>dec_px := p\<rparr>) < px_end"
    using assms by simp_all
  from qoi_emit_ok [OF this, of f] show ?thesis by simp
qed



lemma checked_mul_size_SomeD:
  fixes a b :: "'a::len word"
  assumes "checked_mul_size a b = Some r"
  shows "r = a * b \<and> unat r = unat a * unat b"
proof -
  from assms have "unat r = unat a * unat b" by (simp add: checked_mul_size_Some_iff)
  moreover from assms have "r = a * b"
    by (simp add: checked_mul_size_def split: if_splits)
  ultimately show ?thesis by simp
qed


lemma dec_at_init:
  assumes "ch = 3 \<or> ch = 4" "unat (pc * ch) = unat pc * unat ch" "length buf = unat (pc * ch)"
  shows "dec_at ch (pc * ch) \<lparr>dec_index = idx, dec_px = p, dec_pos = 0, dec_pixels = buf\<rparr> []"
  using assms by (simp add: dec_at_def)


lemma QOI_OP_RUN_not_others:
  assumes "b1 AND QOI_MASK_2 = QOI_OP_RUN"
  shows "b1 AND QOI_MASK_2 \<noteq> QOI_OP_INDEX" "b1 AND QOI_MASK_2 \<noteq> QOI_OP_DIFF"
    "b1 AND QOI_MASK_2 \<noteq> QOI_OP_LUMA"
  using assms by (simp_all add: QOI_OP_RUN_def QOI_OP_INDEX_def QOI_OP_DIFF_def QOI_OP_LUMA_def)

lemma qoi_decode_op_run:
  assumes "b1 AND QOI_MASK_2 = QOI_OP_RUN" "b1 \<noteq> QOI_OP_RGB" "b1 \<noteq> QOI_OP_RGBA"
  shows "qoi_decode_op ch px_end b1 f st =
     (case qoi_run_loop ch px_end (unat (b1 AND 0x3f) + 1) st of
        Inl e \<Rightarrow> Inl e | Inr st' \<Rightarrow> Inr (st', f))"
  using assms QOI_OP_RUN_not_others [OF assms(1)]
  unfolding qoi_decode_op_def
  by (simp del: qoi_run_loop.simps split: prod.splits)

lemma qoi_decode_loop_done:
  "\<not> dec_pos st < px_end \<Longrightarrow> qoi_decode_loop ch px_end f st = Inr (st, f)"
  by (subst qoi_decode_loop.simps) simp

lemma qoi_decode_loop_step:
  "dec_pos st < px_end \<Longrightarrow> qoi_decode_loop ch px_end (b1 # f) st =
     (case qoi_decode_op ch px_end b1 f st of
        Inl e \<Rightarrow> Inl e | Inr (st', f2) \<Rightarrow> qoi_decode_loop ch px_end f2 st')"
  by (subst qoi_decode_loop.simps) simp




section \<open>Properties of the QOI encoder\<close>

lemma qoi_hash_less [simp]: "qoi_hash p < 64"
  by (cases p) simp

lemma qoi_encode_loop_done:
  "\<not> i < n \<Longrightarrow> qoi_encode_loop buf ch n i st = Inr st"
  by (subst qoi_encode_loop.simps) simp

lemma qoi_encode_loop_step:
  assumes "i < n" "n * ch \<le> length buf"
  shows "qoi_encode_loop buf ch n i st =
     qoi_encode_loop buf ch n (Suc i) (qoi_encode_px (i = n - 1) (qoi_load_px buf ch i) st)"
proof -
  from assms(1) have "Suc i * ch \<le> n * ch" by (intro mult_le_mono1) simp
  with assms(2) have "i * ch + ch \<le> length buf" by simp
  with assms(1) show ?thesis by (subst qoi_encode_loop.simps) simp
qed

lemma qoi_encode_px_repeat:
  assumes "enc_prev st = p" "enc_run st + 1 \<noteq> 62" "\<not> is_last"
  shows "qoi_encode_px is_last p st = st\<lparr>enc_run := enc_run st + 1\<rparr>"
  using assms by (simp add: qoi_encode_px_def Let_def)

lemma qoi_encode_px_repeat_flush:
  assumes "enc_prev st = p" "enc_run st + 1 = 62 \<or> is_last"
  shows "qoi_encode_px is_last p st =
     st\<lparr>enc_data := enc_data st @ [QOI_OP_RUN OR word_of_nat (enc_run st)], enc_run := 0\<rparr>"
  using assms by (auto simp: qoi_encode_px_def Let_def qoi_flush_run_def)

lemma qoi_encode_px_flushed:
  assumes "enc_prev st \<noteq> p" "0 < enc_run st"
  shows "qoi_encode_px is_last p st = qoi_encode_px is_last p (qoi_flush_run st)"
  using assms by (simp add: qoi_encode_px_def Let_def qoi_flush_run_def)

text \<open>A block of \<open>k\<close> repetitions that neither fills a run nor ends the image only counts.\<close>

lemma qoi_encode_loop_repeats:
  assumes "n * ch \<le> length buf" "i + k < n" "enc_prev st = p" "enc_run st + k < 62"
    and "\<And>j. i \<le> j \<Longrightarrow> j < i + k \<Longrightarrow> qoi_load_px buf ch j = p"
  shows "qoi_encode_loop buf ch n i st =
     qoi_encode_loop buf ch n (i + k) (st\<lparr>enc_run := enc_run st + k\<rparr>)"
  using assms(2-)
proof (induction k arbitrary: i st)
  case 0
  then show ?case by simp
next
  case (Suc k)
  have px: "qoi_load_px buf ch i = p" using Suc.prems(4) [of i] by simp
  have step: "qoi_encode_px (i = n - 1) p st = st\<lparr>enc_run := enc_run st + 1\<rparr>"
    using Suc.prems by (intro qoi_encode_px_repeat) auto
  have "i < n" using Suc.prems by simp
  then have "qoi_encode_loop buf ch n i st =
      qoi_encode_loop buf ch n (Suc i) (qoi_encode_px (i = n - 1) (qoi_load_px buf ch i) st)"
    using assms(1) by (rule qoi_encode_loop_step)
  then have "qoi_encode_loop buf ch n i st =
      qoi_encode_loop buf ch n (Suc i) (st\<lparr>enc_run := enc_run st + 1\<rparr>)"
    unfolding px step .
  also have "\<dots> = qoi_encode_loop buf ch n (Suc i + k)
      (st\<lparr>enc_run := enc_run st + 1\<rparr>\<lparr>enc_run := enc_run (st\<lparr>enc_run := enc_run st + 1\<rparr>) + k\<rparr>)"
    using Suc.prems by (intro Suc.IH) auto
  finally show ?case by simp
qed


lemma qoi_encode_px_new_state:
  assumes "enc_prev st \<noteq> p" "enc_run st = 0"
  shows "enc_prev (qoi_encode_px is_last p st) = p" "enc_run (qoi_encode_px is_last p st) = 0"
    "enc_data (qoi_encode_px is_last p st) = enc_data st @
       (if enc_index st ! qoi_hash p = p then [QOI_OP_INDEX OR word_of_nat (qoi_hash p)]
        else qoi_encode_new p (enc_prev st))"
  using assms by (simp_all add: qoi_encode_px_def Let_def)

text \<open>Sixty-two repetitions fill a run, which is written at once.\<close>

lemma qoi_encode_loop_full_run:
  assumes buf: "n * ch \<le> length buf" and "i + 62 \<le> n" "enc_prev st = p" "enc_run st = 0"
    and same: "\<And>j. i \<le> j \<Longrightarrow> j < i + 62 \<Longrightarrow> qoi_load_px buf ch j = p"
  shows "qoi_encode_loop buf ch n i st =
     qoi_encode_loop buf ch n (i + 62) (st\<lparr>enc_data := enc_data st @ [QOI_OP_RUN OR 61]\<rparr>)"
proof -
  let ?st61 = "st\<lparr>enc_run := enc_run st + 61\<rparr>"
  have "qoi_encode_loop buf ch n i st = qoi_encode_loop buf ch n (i + 61) ?st61"
    using assms by (intro qoi_encode_loop_repeats [where p = p]) auto
  also have "\<dots> = qoi_encode_loop buf ch n (Suc (i + 61))
      (qoi_encode_px (i + 61 = n - 1) (qoi_load_px buf ch (i + 61)) ?st61)"
    using assms(2) buf by (intro qoi_encode_loop_step) auto
  also have "qoi_load_px buf ch (i + 61) = p" using same [of "i + 61"] by simp
  also have "qoi_encode_px (i + 61 = n - 1) p ?st61 =
      ?st61\<lparr>enc_data := enc_data ?st61 @ [QOI_OP_RUN OR word_of_nat (enc_run ?st61)], enc_run := 0\<rparr>"
    using assms by (intro qoi_encode_px_repeat_flush) auto
  also have "?st61\<lparr>enc_data := enc_data ?st61 @ [QOI_OP_RUN OR word_of_nat (enc_run ?st61)],
      enc_run := 0\<rparr> = st\<lparr>enc_data := enc_data st @ [QOI_OP_RUN OR 61]\<rparr>"
    using assms(4) by (cases st) simp
  also have "Suc (i + 61) = i + 62" by simp
  finally show ?thesis .
qed

text \<open>
  A shorter block of \<open>k\<close> repetitions is written as one run when the image ends or the
  next pixel differs. Whether the byte is written before or while the next pixel is
  encoded makes no difference to what follows.
\<close>

lemma qoi_encode_loop_short_run:
  assumes buf: "n * ch \<le> length buf" and "0 < k" "k < 62" "i + k \<le> n"
    and st: "enc_prev st = p" "enc_run st = 0"
    and same: "\<And>j. i \<le> j \<Longrightarrow> j < i + k \<Longrightarrow> qoi_load_px buf ch j = p"
    and stop: "i + k = n \<or> qoi_load_px buf ch (i + k) \<noteq> p"
  shows "qoi_encode_loop buf ch n i st =
     qoi_encode_loop buf ch n (i + k)
       (st\<lparr>enc_data := enc_data st @ [QOI_OP_RUN OR word_of_nat (k - 1)]\<rparr>)"
proof -
  let ?st1 = "st\<lparr>enc_run := k - 1\<rparr>"
  let ?last = "i + (k - 1)"
  let ?flushed = "st\<lparr>enc_data := enc_data st @ [QOI_OP_RUN OR word_of_nat (k - 1)]\<rparr>"
  have "qoi_encode_loop buf ch n i st
      = qoi_encode_loop buf ch n ?last (st\<lparr>enc_run := enc_run st + (k - 1)\<rparr>)"
    using assms by (intro qoi_encode_loop_repeats [where p = p]) auto
  also have "\<dots> = qoi_encode_loop buf ch n ?last ?st1" using st by simp
  also have "\<dots> = qoi_encode_loop buf ch n (Suc ?last)
      (qoi_encode_px (?last = n - 1) (qoi_load_px buf ch ?last) ?st1)"
    using assms(2,4) buf by (intro qoi_encode_loop_step) auto
  also have "qoi_load_px buf ch ?last = p" using same [of ?last] assms(2) by simp
  also have "Suc ?last = i + k" using assms(2) by simp
  finally have start: "qoi_encode_loop buf ch n i st =
      qoi_encode_loop buf ch n (i + k) (qoi_encode_px (?last = n - 1) p ?st1)" .
  show ?thesis
  proof (cases "i + k = n")
    case True
    then have "?last = n - 1" using assms(2) by simp
    then have "qoi_encode_px (?last = n - 1) p ?st1 =
        ?st1\<lparr>enc_data := enc_data ?st1 @ [QOI_OP_RUN OR word_of_nat (enc_run ?st1)], enc_run := 0\<rparr>"
      using st by (intro qoi_encode_px_repeat_flush) auto
    also have "\<dots> = ?flushed" using st by simp
    finally show ?thesis using start by simp
  next
    case False
    with assms(4) have lt: "i + k < n" by simp
    with stop have diff: "qoi_load_px buf ch (i + k) \<noteq> p" by simp
    let ?q = "qoi_load_px buf ch (i + k)"
    let ?pending = "st\<lparr>enc_run := k\<rparr>"
    have "?last \<noteq> n - 1" using lt assms(2) by simp
    then have "qoi_encode_px (?last = n - 1) p ?st1 = ?st1\<lparr>enc_run := enc_run ?st1 + 1\<rparr>"
      using st assms(2,3) by (intro qoi_encode_px_repeat) auto
    also have "\<dots> = ?pending" using assms(2) by simp
    finally have "qoi_encode_loop buf ch n i st = qoi_encode_loop buf ch n (i + k) ?pending"
      using start by simp
    also have "\<dots> = qoi_encode_loop buf ch n (Suc (i + k))
        (qoi_encode_px (i + k = n - 1) ?q ?pending)"
      using lt buf by (intro qoi_encode_loop_step) auto
    also have "qoi_encode_px (i + k = n - 1) ?q ?pending =
        qoi_encode_px (i + k = n - 1) ?q (qoi_flush_run ?pending)"
      using diff st assms(2) by (intro qoi_encode_px_flushed) auto
    also have "qoi_flush_run ?pending = ?flushed"
      using st by (simp add: qoi_flush_run_def)
    also have "qoi_encode_loop buf ch n (Suc (i + k)) (qoi_encode_px (i + k = n - 1) ?q ?flushed)
        = qoi_encode_loop buf ch n (i + k) ?flushed"
      using lt buf by (intro qoi_encode_loop_step [symmetric]) auto
    finally show ?thesis .
  qed
qed

text \<open>
  Claim C7, amended. Let the first 70 pixels of an image be the same pixel \<open>p\<close>, and
  let the image end there or continue with a different pixel. If \<open>p\<close> is the encoder's
  initial previous pixel \<open>(0, 0, 0, 255)\<close>, the 70 pixels are written as two run
  operations with counts 62 and 8 (the bytes \<open>QOI_OP_RUN | 61\<close> and \<open>QOI_OP_RUN | 7\<close>).
  Otherwise the first pixel is written by an operation of its own (an index or a new
  pixel, never a run) and the 69 repetitions as two run operations with counts 62 and 7.
  In both cases the encoder then continues at pixel 70 with no run pending.
\<close>

theorem qoi_encode_run_of_70:
  assumes "n * ch \<le> length buf" "70 \<le> n"
    and "\<And>j. j < 70 \<Longrightarrow> qoi_load_px buf ch j = p"
    and "n = 70 \<or> qoi_load_px buf ch 70 \<noteq> p"
    and "st = \<lparr>enc_index = idx, enc_prev = (0, 0, 0, 255), enc_run = 0, enc_data = hdr\<rparr>"
    and "st1 = qoi_encode_px False p st"
  shows "(p = (0, 0, 0, 255) \<longrightarrow>
            qoi_encode_loop buf ch n 0 st = qoi_encode_loop buf ch n 70
              (st\<lparr>enc_data := hdr @ [QOI_OP_RUN OR 61, QOI_OP_RUN OR 7]\<rparr>))
       \<and> (p \<noteq> (0, 0, 0, 255) \<longrightarrow>
            qoi_encode_loop buf ch n 0 st = qoi_encode_loop buf ch n 70
              (st1\<lparr>enc_data := enc_data st1 @ [QOI_OP_RUN OR 61, QOI_OP_RUN OR 6]\<rparr>)
            \<and> enc_data st1 = hdr @
                 (if idx ! qoi_hash p = p then [QOI_OP_INDEX OR word_of_nat (qoi_hash p)]
                  else qoi_encode_new p (0, 0, 0, 255)))"
proof (intro conjI impI)
  assume p: "p = (0, 0, 0, 255)"
  let ?st62 = "st\<lparr>enc_data := enc_data st @ [QOI_OP_RUN OR 61]\<rparr>"
  have "qoi_encode_loop buf ch n 0 st = qoi_encode_loop buf ch n (0 + 62) ?st62"
    using assms p by (intro qoi_encode_loop_full_run [where p = p]) auto
  moreover have "qoi_encode_loop buf ch n 62 ?st62 = qoi_encode_loop buf ch n (62 + 8)
      (?st62\<lparr>enc_data := enc_data ?st62 @ [QOI_OP_RUN OR word_of_nat (8 - 1)]\<rparr>)"
    using assms p by (intro qoi_encode_loop_short_run [where p = p]) auto
  ultimately show "qoi_encode_loop buf ch n 0 st = qoi_encode_loop buf ch n 70
      (st\<lparr>enc_data := hdr @ [QOI_OP_RUN OR 61, QOI_OP_RUN OR 7]\<rparr>)"
    using assms(5) by simp
next
  assume p: "p \<noteq> (0, 0, 0, 255)"
  then have new: "enc_prev st \<noteq> p" "enc_run st = 0" using assms(5) by auto
  note st1 = qoi_encode_px_new_state [OF new, of False, folded assms(6)]
  from st1(3) show "enc_data st1 = hdr @
      (if idx ! qoi_hash p = p then [QOI_OP_INDEX OR word_of_nat (qoi_hash p)]
       else qoi_encode_new p (0, 0, 0, 255))"
    using assms(5) by simp
  let ?st62 = "st1\<lparr>enc_data := enc_data st1 @ [QOI_OP_RUN OR 61]\<rparr>"
  have "qoi_encode_loop buf ch n 0 st = qoi_encode_loop buf ch n (Suc 0)
      (qoi_encode_px (0 = n - 1) (qoi_load_px buf ch 0) st)"
    using assms(1,2) by (intro qoi_encode_loop_step) auto
  also have "qoi_load_px buf ch 0 = p" using assms(3) by simp
  also have "(0 = n - 1) = False" using assms(2) by auto
  also have "qoi_encode_px False p st = st1" using assms(6) by simp
  finally have "qoi_encode_loop buf ch n 0 st = qoi_encode_loop buf ch n (Suc 0) st1" .
  moreover have "qoi_encode_loop buf ch n (Suc 0) st1 = qoi_encode_loop buf ch n (Suc 0 + 62) ?st62"
    using assms st1 by (intro qoi_encode_loop_full_run [where p = p]) auto
  moreover have "qoi_encode_loop buf ch n 63 ?st62 = qoi_encode_loop buf ch n (63 + 7)
      (?st62\<lparr>enc_data := enc_data ?st62 @ [QOI_OP_RUN OR word_of_nat (7 - 1)]\<rparr>)"
    using assms st1 by (intro qoi_encode_loop_short_run [where p = p]) auto
  ultimately show "qoi_encode_loop buf ch n 0 st = qoi_encode_loop buf ch n 70
      (st1\<lparr>enc_data := enc_data st1 @ [QOI_OP_RUN OR 61, QOI_OP_RUN OR 6]\<rparr>)"
    by simp
qed

lemma qoi_encode_px_new_index:
  assumes "enc_prev st \<noteq> p" "length (enc_index st) = 64"
  shows "enc_index (qoi_encode_px is_last p st) ! qoi_hash p = p"
    "length (enc_index (qoi_encode_px is_last p st)) = 64"
    "enc_prev (qoi_encode_px is_last p st) = p"
    "enc_run (qoi_encode_px is_last p st) = 0"
    "j \<noteq> qoi_hash p \<Longrightarrow> enc_index (qoi_encode_px is_last p st) ! j = enc_index st ! j"
  using assms by (simp_all add: qoi_encode_px_def Let_def qoi_flush_run_def)

lemma qoi_encode_px_hit:
  assumes "enc_prev st \<noteq> p" "enc_run st = 0" "enc_index st ! qoi_hash p = p"
  shows "qoi_encode_px is_last p st =
     st\<lparr>enc_data := enc_data st @ [QOI_OP_INDEX OR word_of_nat (qoi_hash p)], enc_prev := p\<rparr>"
  using assms by (simp add: qoi_encode_px_def Let_def)

text \<open>
  Claim C8, amended. Let the pixels at positions \<open>i\<close>, \<open>i + 1\<close>, \<open>i + 2\<close> be \<open>A\<close>,
  \<open>B\<close>, \<open>A\<close> with \<open>A \<noteq> B\<close>. If the pixel before position \<open>i\<close> (the initial
  previous pixel at the start of the image) differs from \<open>A\<close>, so that the first
  occurrence is not swallowed by a run, and the hashes of \<open>A\<close> and \<open>B\<close> differ, so
  that \<open>B\<close> does not evict \<open>A\<close>, then the first occurrence leaves \<open>A\<close> in the
  index slot \<open>qoi_hash A\<close> and the second occurrence is written as the single byte
  \<open>QOI_OP_INDEX | qoi_hash A\<close>.
\<close>

theorem qoi_encode_index_hit:
  assumes buf: "n * ch \<le> length buf" and n: "i + 3 \<le> n"
    and px: "qoi_load_px buf ch i = A" "qoi_load_px buf ch (i + 1) = B"
      "qoi_load_px buf ch (i + 2) = A"
    and "A \<noteq> B" "enc_prev st \<noteq> A" "qoi_hash A \<noteq> qoi_hash B"
    and "length (enc_index st) = 64"
    and "st2 = qoi_encode_px False B (qoi_encode_px False A st)"
  shows "qoi_encode_loop buf ch n i st = qoi_encode_loop buf ch n (i + 3)
           (st2\<lparr>enc_data := enc_data st2 @ [QOI_OP_INDEX OR word_of_nat (qoi_hash A)],
                enc_prev := A\<rparr>)
       \<and> enc_index st2 ! qoi_hash A = A"
proof -
  let ?st1 = "qoi_encode_px False A st"
  note s1 = qoi_encode_px_new_index [OF assms(7,9), where is_last = False]
  have prev1: "enc_prev ?st1 \<noteq> B" using s1(3) assms(6) by simp
  note s2 = qoi_encode_px_new_index [OF prev1 s1(2), where is_last = False, folded assms(10)]
  have slot: "enc_index st2 ! qoi_hash A = A"
    using s2(5) [of "qoi_hash A"] s1(1) assms(8) by simp
  have prev2: "enc_prev st2 \<noteq> A" using s2(3) assms(6) by simp
  have "qoi_encode_loop buf ch n i st = qoi_encode_loop buf ch n (Suc i)
      (qoi_encode_px (i = n - 1) (qoi_load_px buf ch i) st)"
    using n buf by (intro qoi_encode_loop_step) auto
  also have "(i = n - 1) = False" using n by auto
  also have "qoi_encode_loop buf ch n (Suc i) (qoi_encode_px False (qoi_load_px buf ch i) st)
      = qoi_encode_loop buf ch n (Suc (Suc i))
          (qoi_encode_px (Suc i = n - 1) (qoi_load_px buf ch (Suc i)) ?st1)"
    unfolding px using n buf by (intro qoi_encode_loop_step) auto
  also have "(Suc i = n - 1) = False" using n by auto
  also have "qoi_load_px buf ch (Suc i) = B" using px(2) by simp
  also have "qoi_encode_px False B ?st1 = st2" using assms(10) by simp
  also have "qoi_encode_loop buf ch n (Suc (Suc i)) st2 = qoi_encode_loop buf ch n (Suc (Suc (Suc i)))
      (qoi_encode_px (Suc (Suc i) = n - 1) (qoi_load_px buf ch (Suc (Suc i))) st2)"
    using n buf by (intro qoi_encode_loop_step) auto
  also have "qoi_load_px buf ch (Suc (Suc i)) = A" using px(3) by simp
  also have "qoi_encode_px (Suc (Suc i) = n - 1) A st2 =
      st2\<lparr>enc_data := enc_data st2 @ [QOI_OP_INDEX OR word_of_nat (qoi_hash A)], enc_prev := A\<rparr>"
    using prev2 s2(4) slot by (rule qoi_encode_px_hit)
  also have "Suc (Suc (Suc i)) = i + 3" by simp
  finally show ?thesis using slot by simp
qed

text \<open>
  Claim C7, as stated, fails: a row of 70 red pixels is written as an \<open>RGB\<close> operation
  followed by runs of 62 and 7, not as runs of 62 and 8, because a run counts repetitions
  of the previous pixel and the first red pixel is not one.
\<close>

theorem qoi_encode_run_of_70_fails:
  "qoi_write small_heap
     \<lparr>pixels = Some (concat (replicate 70 [255, 0, 0])), width = 70, height = 1, channels = 3\<rparr>
   = Inr [0x71, 0x6f, 0x69, 0x66, 0, 0, 0, 70, 0, 0, 0, 1, 3, 1,
          0xfe, 255, 0, 0, 0xfd, 0xc6,
          0, 0, 0, 0, 0, 0, 0, 1]"
  by code_simp

theorem qoi_encode_run_of_70_witness:
  "map_sum id enc_data (qoi_encode_loop (replicate 210 0) 3 70 0
      \<lparr>enc_index = replicate 64 (0, 0, 0, 0), enc_prev = (0, 0, 0, 255), enc_run = 0,
       enc_data = []\<rparr>) = Inr [0xfd, 0xc7]
   \<and> map_sum id enc_data (qoi_encode_loop (concat (replicate 70 [255, 0, 0])) 3 70 0
      \<lparr>enc_index = replicate 64 (0, 0, 0, 0), enc_prev = (0, 0, 0, 255), enc_run = 0,
       enc_data = []\<rparr>) = Inr [0xfe, 255, 0, 0, 0xfd, 0xc6]"
proof -
  let ?st = "\<lparr>enc_index = replicate 64 (0, 0, 0, 0), enc_prev = (0, 0, 0, 255), enc_run = 0,
       enc_data = []\<rparr>"
  let ?black = "replicate 210 (0 :: byte)" and ?red = "concat (replicate 70 [255, 0, 0 :: byte])"
  have "\<forall>j\<in>{0..<70}. qoi_load_px ?black 3 j = (0, 0, 0, 255)" by code_simp
  then have black: "\<And>j. j < 70 \<Longrightarrow> qoi_load_px ?black 3 j = (0, 0, 0, 255)" by simp
  have "\<forall>j\<in>{0..<70}. qoi_load_px ?red 3 j = (255, 0, 0, 255)" by code_simp
  then have red: "\<And>j. j < 70 \<Longrightarrow> qoi_load_px ?red 3 j = (255, 0, 0, 255)" by simp
  have len: "70 * 3 \<le> length ?black" "70 * 3 \<le> length ?red"
    by (simp_all add: length_concat sum_list_replicate)
  have run: "QOI_OP_RUN OR 61 = 0xfd" "QOI_OP_RUN OR 7 = 0xc7" "QOI_OP_RUN OR 6 = 0xc6"
    by (simp_all add: QOI_OP_RUN_def)
  have first: "enc_data (qoi_encode_px False (255, 0, 0, 255) ?st) = [0xfe, 255, 0, 0]"
    by code_simp
  from qoi_encode_run_of_70 [OF len(1) order_refl black _ refl refl]
  have "qoi_encode_loop ?black 3 70 0 ?st =
      qoi_encode_loop ?black 3 70 70 (?st\<lparr>enc_data := [] @ [QOI_OP_RUN OR 61, QOI_OP_RUN OR 7]\<rparr>)"
    by simp
  then have 1: "map_sum id enc_data (qoi_encode_loop ?black 3 70 0 ?st) = Inr [0xfd, 0xc7]"
    by (simp add: qoi_encode_loop_done run)
  from qoi_encode_run_of_70 [OF len(2) order_refl red _ refl refl]
  have "qoi_encode_loop ?red 3 70 0 ?st =
      qoi_encode_loop ?red 3 70 70 ((qoi_encode_px False (255, 0, 0, 255) ?st)
        \<lparr>enc_data := enc_data (qoi_encode_px False (255, 0, 0, 255) ?st)
            @ [QOI_OP_RUN OR 61, QOI_OP_RUN OR 6]\<rparr>)"
    by simp
  then have 2: "map_sum id enc_data (qoi_encode_loop ?red 3 70 0 ?st)
      = Inr [0xfe, 255, 0, 0, 0xfd, 0xc6]"
    by (simp add: qoi_encode_loop_done run first)
  from 1 2 show ?thesis by simp
qed

text \<open>
  Claim C8, as stated, fails in two ways. In the image black, (1, 1, 1), black the first
  black pixel repeats the initial previous pixel: it is written as a run and never enters
  the index, so the second one is written as a \<open>DIFF\<close> operation (\<open>0x55\<close>). In the image
  (64, 0, 0), (128, 0, 0), (64, 0, 0) the two colours have the same hash: the middle pixel
  evicts the first and the third is written as an \<open>RGB\<close> operation of four bytes.
\<close>

theorem qoi_encode_index_hit_fails:
  "qoi_write small_heap
     \<lparr>pixels = Some [0, 0, 0, 1, 1, 1, 0, 0, 0], width = 3, height = 1, channels = 3\<rparr>
   = Inr [0x71, 0x6f, 0x69, 0x66, 0, 0, 0, 3, 0, 0, 0, 1, 3, 1,
          0xc0, 0x7f, 0x55,
          0, 0, 0, 0, 0, 0, 0, 1]
   \<and> qoi_hash (64, 0, 0, 255) = qoi_hash (128, 0, 0, 255)
   \<and> qoi_write small_heap
     \<lparr>pixels = Some [64, 0, 0, 128, 0, 0, 64, 0, 0], width = 3, height = 1, channels = 3\<rparr>
   = Inr [0x71, 0x6f, 0x69, 0x66, 0, 0, 0, 3, 0, 0, 0, 1, 3, 1,
          0xfe, 64, 0, 0, 0xfe, 128, 0, 0, 0xfe, 64, 0, 0,
          0, 0, 0, 0, 0, 0, 0, 1]"
  by code_simp

theorem qoi_encode_index_hit_witness:
  "qoi_hash (10, 0, 0, 255) = 19 \<and> qoi_hash (0, 0, 15, 255) = 30
   \<and> map_sum id enc_data (qoi_encode_loop [10, 0, 0, 0, 0, 15, 10, 0, 0] 3 3 0
      \<lparr>enc_index = replicate 64 (0, 0, 0, 0), enc_prev = (0, 0, 0, 255), enc_run = 0,
       enc_data = []\<rparr>) = Inr [0xfe, 10, 0, 0, 0xfe, 0, 0, 15, 19]"
proof -
  let ?st = "\<lparr>enc_index = replicate 64 (0, 0, 0, 0), enc_prev = (0, 0, 0, 255), enc_run = 0,
       enc_data = []\<rparr>"
  let ?buf = "[10, 0, 0, 0, 0, 15, 10, 0, 0 :: byte]"
  let ?A = "(10, 0, 0, 255) :: rgba" and ?B = "(0, 0, 15, 255) :: rgba"
  have px: "qoi_load_px ?buf 3 0 = ?A" "qoi_load_px ?buf 3 (0 + 1) = ?B"
    "qoi_load_px ?buf 3 (0 + 2) = ?A"
    by (simp_all add: qoi_load_px_def)
  have h: "qoi_hash ?A = 19" "qoi_hash ?B = 30" by simp_all
  have two: "enc_data (qoi_encode_px False ?B (qoi_encode_px False ?A ?st))
      = [0xfe, 10, 0, 0, 0xfe, 0, 0, 15]"
    by code_simp
  have "qoi_encode_loop ?buf 3 3 0 ?st = qoi_encode_loop ?buf 3 3 (0 + 3)
      ((qoi_encode_px False ?B (qoi_encode_px False ?A ?st))
        \<lparr>enc_data := enc_data (qoi_encode_px False ?B (qoi_encode_px False ?A ?st))
            @ [QOI_OP_INDEX OR word_of_nat (qoi_hash ?A)], enc_prev := ?A\<rparr>)"
    using qoi_encode_index_hit [of 3 3 ?buf 0 ?A ?B ?st, OF _ _ px _ _ _ _ refl] h
    by simp
  then have "map_sum id enc_data (qoi_encode_loop ?buf 3 3 0 ?st)
      = Inr [0xfe, 10, 0, 0, 0xfe, 0, 0, 15, 19]"
    by (simp add: qoi_encode_loop_done two h QOI_OP_INDEX_def)
  with h show ?thesis by simp
qed

section \<open>The QOI decoder inverts the encoder\<close>

subsection \<open>The bytes of the operations\<close>

lemma mask8: "(0xff :: 32 word) = mask 8"
  by (simp add: mask_eq_exp_minus_1)

lemma qoi_read32be_write32be: "qoi_read32be (qoi_write32be v @ rest) = v"
proof (rule bit_word_eqI)
  fix n
  assume "n < LENGTH(32)"
  then consider "n < 8" | "8 \<le> n" "n < 16" | "16 \<le> n" "n < 24" | "24 \<le> n" "n < 32"
    by fastforce
  then show "bit (qoi_read32be (qoi_write32be v @ rest)) n = bit v n"
    unfolding qoi_read32be_def qoi_write32be_def mask8
    by cases (auto simp: nth_append bit_simps not_less)
qed

lemma index_byte:
  assumes "k < 64"
  shows "(word_of_nat k :: byte) \<noteq> QOI_OP_RGB \<and> (word_of_nat k :: byte) \<noteq> QOI_OP_RGBA
     \<and> (QOI_OP_INDEX OR word_of_nat k) AND QOI_MASK_2 = QOI_OP_INDEX
     \<and> unat (QOI_OP_INDEX OR word_of_nat k :: byte) = k"
proof -
  have "\<forall>k\<in>{0..<64}. (word_of_nat k :: byte) \<noteq> QOI_OP_RGB \<and> (word_of_nat k :: byte) \<noteq> QOI_OP_RGBA
     \<and> (QOI_OP_INDEX OR word_of_nat k) AND QOI_MASK_2 = QOI_OP_INDEX
     \<and> unat (QOI_OP_INDEX OR word_of_nat k :: byte) = k"
    by code_simp
  with assms show ?thesis by simp
qed

lemma run_byte:
  assumes "r < 62"
  shows "(QOI_OP_RUN OR word_of_nat r) \<noteq> QOI_OP_RGB \<and> (QOI_OP_RUN OR word_of_nat r) \<noteq> QOI_OP_RGBA
     \<and> (QOI_OP_RUN OR word_of_nat r) AND QOI_MASK_2 = QOI_OP_RUN
     \<and> unat ((QOI_OP_RUN OR word_of_nat r) AND 0x3f) = r"
proof -
  have "\<forall>r\<in>{0..<62}. (QOI_OP_RUN OR word_of_nat r) \<noteq> QOI_OP_RGB \<and> (QOI_OP_RUN OR word_of_nat r) \<noteq> QOI_OP_RGBA
     \<and> (QOI_OP_RUN OR word_of_nat r) AND QOI_MASK_2 = QOI_OP_RUN
     \<and> unat ((QOI_OP_RUN OR word_of_nat r) AND 0x3f) = r"
    by code_simp
  with assms show ?thesis by simp
qed

lemma small_int_cases:
  "- 3 < (v :: int) \<Longrightarrow> v < 2 \<Longrightarrow> v = - 2 \<or> v = - 1 \<or> v = 0 \<or> v = 1"
  by auto

lemma diff_byte:
  assumes "- 3 < vr" "vr < 2" "- 3 < vg" "vg < 2" "- 3 < vb" "vb < 2"
    and "d = (word_of_int (0x40 OR push_bit 4 (vr + 2) OR push_bit 2 (vg + 2) OR (vb + 2)) :: byte)"
  shows "d \<noteq> QOI_OP_RGB \<and> d \<noteq> QOI_OP_RGBA \<and> d AND QOI_MASK_2 = QOI_OP_DIFF
     \<and> (drop_bit 4 d AND 0x03) - 2 = word_of_int vr
     \<and> (drop_bit 2 d AND 0x03) - 2 = word_of_int vg
     \<and> (d AND 0x03) - 2 = word_of_int vb"
  using small_int_cases [OF assms(1,2)] small_int_cases [OF assms(3,4)]
    small_int_cases [OF assms(5,6)]
  unfolding assms(7) QOI_OP_RGB_def QOI_OP_RGBA_def QOI_MASK_2_def QOI_OP_DIFF_def
  by (elim disjE; simp)

lemma luma_byte1:
  assumes "- 33 < vg" "vg < 32"
  shows "(word_of_int (0x80 OR (vg + 32)) :: byte) \<noteq> QOI_OP_RGB
     \<and> (word_of_int (0x80 OR (vg + 32)) :: byte) \<noteq> QOI_OP_RGBA
     \<and> (word_of_int (0x80 OR (vg + 32)) :: byte) AND QOI_MASK_2 = QOI_OP_LUMA
     \<and> ((word_of_int (0x80 OR (vg + 32)) :: byte) AND 0x3f) - 32 = word_of_int vg"
proof -
  have "\<forall>g\<in>{0..<64}. (word_of_int (0x80 OR int g) :: byte) \<noteq> QOI_OP_RGB
     \<and> (word_of_int (0x80 OR int g) :: byte) \<noteq> QOI_OP_RGBA
     \<and> (word_of_int (0x80 OR int g) :: byte) AND QOI_MASK_2 = QOI_OP_LUMA
     \<and> ((word_of_int (0x80 OR int g) :: byte) AND 0x3f) = word_of_nat g"
    by code_simp
  moreover have "nat (vg + 32) \<in> {0..<64}" using assms by auto
  ultimately have "(word_of_int (0x80 OR int (nat (vg + 32))) :: byte) \<noteq> QOI_OP_RGB
     \<and> (word_of_int (0x80 OR int (nat (vg + 32))) :: byte) \<noteq> QOI_OP_RGBA
     \<and> (word_of_int (0x80 OR int (nat (vg + 32))) :: byte) AND QOI_MASK_2 = QOI_OP_LUMA
     \<and> ((word_of_int (0x80 OR int (nat (vg + 32))) :: byte) AND 0x3f) = word_of_nat (nat (vg + 32))"
    by blast
  moreover have "int (nat (vg + 32)) = vg + 32" using assms by simp
  moreover have "(word_of_nat (nat (vg + 32)) :: byte) = word_of_int vg + 32"
    using assms by (simp add: of_nat_nat)
  ultimately show ?thesis by simp
qed


lemma luma_byte2:
  assumes "- 9 < hi" "hi < 8" "- 9 < lo" "lo < 8"
  shows "drop_bit 4 (word_of_int (push_bit 4 (hi + 8) OR (lo + 8)) :: byte) AND 0x0f
           = word_of_int hi + 8
     \<and> (word_of_int (push_bit 4 (hi + 8) OR (lo + 8)) :: byte) AND 0x0f = word_of_int lo + 8"
proof -
  have "\<forall>h\<in>{0..<16}. \<forall>l\<in>{0..<16}.
     drop_bit 4 (word_of_int (push_bit 4 (int h) OR int l) :: byte) AND 0x0f = word_of_nat h
     \<and> (word_of_int (push_bit 4 (int h) OR int l) :: byte) AND 0x0f = word_of_nat l"
    by code_simp
  moreover have "nat (hi + 8) \<in> {0..<16}" "nat (lo + 8) \<in> {0..<16}" using assms by auto
  ultimately have "drop_bit 4 (word_of_int (push_bit 4 (int (nat (hi + 8))) OR int (nat (lo + 8))) :: byte)
        AND 0x0f = word_of_nat (nat (hi + 8))
     \<and> (word_of_int (push_bit 4 (int (nat (hi + 8))) OR int (nat (lo + 8))) :: byte) AND 0x0f
        = word_of_nat (nat (lo + 8))"
    by blast
  moreover have "int (nat (hi + 8)) = hi + 8" "int (nat (lo + 8)) = lo + 8" using assms by simp_all
  moreover have "(word_of_nat (nat (hi + 8)) :: byte) = word_of_int hi + 8"
    "(word_of_nat (nat (lo + 8)) :: byte) = word_of_int lo + 8"
    using assms by (simp_all add: of_nat_nat)
  ultimately show ?thesis by simp
qed

lemma word_of_int_uint_diff: "(word_of_int (uint x - uint y) :: byte) = x - y"
  by simp

lemma QOI_ops_distinct:
  "QOI_OP_RGB \<noteq> QOI_OP_RGBA" "QOI_OP_DIFF \<noteq> QOI_OP_INDEX" "QOI_OP_LUMA \<noteq> QOI_OP_INDEX"
  "QOI_OP_LUMA \<noteq> QOI_OP_DIFF" "QOI_OP_RGBA AND QOI_MASK_2 \<noteq> QOI_OP_INDEX"
  by (simp_all add: QOI_OP_RGB_def QOI_OP_RGBA_def QOI_OP_DIFF_def QOI_OP_INDEX_def
      QOI_OP_LUMA_def QOI_MASK_2_def)

text \<open>The decoder reads restore the pixel that \<open>qoi_encode_new\<close> has written.\<close>

lemma qoi_decode_op_new:
  assumes prev: "dec_px st = prev" and enc: "qoi_encode_new p prev = b1 # bs"
  shows "qoi_decode_op ch px_end b1 (bs @ f) st = qoi_emit ch f (st\<lparr>dec_px := p\<rparr>)"
proof -
  obtain r g b a where p: "p = (r, g, b, a)" by (cases p) auto
  obtain qr qg qb qa where pp: "prev = (qr, qg, qb, qa)" by (cases prev) auto
  define vr vg vb where "vr = uint r - uint qr" and "vg = uint g - uint qg"
    and "vb = uint b - uint qb"
  define small where
    "small \<longleftrightarrow> vr > - 3 \<and> vr < 2 \<and> vg > - 3 \<and> vg < 2 \<and> vb > - 3 \<and> vb < 2"
  define medium where
    "medium \<longleftrightarrow> vr - vg > - 9 \<and> vr - vg < 8 \<and> vg > - 33 \<and> vg < 32
       \<and> vb - vg > - 9 \<and> vb - vg < 8"
  define d :: byte where
    "d = word_of_int (0x40 OR push_bit 4 (vr + 2) OR push_bit 2 (vg + 2) OR (vb + 2))"
  define l1 l2 :: byte where "l1 = word_of_int (0x80 OR (vg + 32))"
    and "l2 = word_of_int (push_bit 4 (vr - vg + 8) OR (vb - vg + 8))"
  have enc_eq: "qoi_encode_new p prev =
      (if a = qa then
         (if small then [d] else if medium then [l1, l2] else [QOI_OP_RGB, r, g, b])
       else [QOI_OP_RGBA, r, g, b, a])"
    unfolding qoi_encode_new_def p pp prod.case Let_def small_def medium_def d_def l1_def l2_def
      vr_def vg_def vb_def ..
  have restore: "qr + word_of_int vr = r" "qg + word_of_int vg = g" "qb + word_of_int vb = b"
    by (simp_all add: vr_def vg_def vb_def)
  show ?thesis
  proof (cases "a = qa")
    case False
    with enc have "b1 = QOI_OP_RGBA" "bs = [r, g, b, a]"
      by (simp_all add: enc_eq)
    then show ?thesis
      using read_bytes_append [of "[r, g, b, a]" 4 f] QOI_ops_distinct
      by (simp add: qoi_decode_op_def prev pp p)
  next
    case True
    show ?thesis
    proof (cases small)
      case diff: True
      from enc True diff have b1: "b1 = d" "bs = []"
        by (simp_all add: enc_eq)
      from diff have f: "d \<noteq> QOI_OP_RGB" "d \<noteq> QOI_OP_RGBA" "d AND QOI_MASK_2 = QOI_OP_DIFF"
        "(drop_bit 4 d AND 0x03) - 2 = word_of_int vr"
        "(drop_bit 2 d AND 0x03) - 2 = word_of_int vg"
        "(d AND 0x03) - 2 = word_of_int vb"
        using diff_byte [of vr vg vb d] by (simp_all add: d_def small_def)
      have "qr + (drop_bit 4 d AND 0x03) - 2 = r" "qg + (drop_bit 2 d AND 0x03) - 2 = g"
        "qb + (d AND 0x03) - 2 = b"
        using f(4-6) restore by (simp_all add: add_diff_eq [symmetric])
      then show ?thesis
        using f(1-3) QOI_ops_distinct True
        by (simp add: qoi_decode_op_def prev pp p b1)
    next
      case nodiff: False
      show ?thesis
      proof (cases medium)
        case luma: True
        from enc True nodiff luma have b1: "b1 = l1" "bs = [l2]"
          by (simp_all add: enc_eq)
        from luma have f1: "l1 \<noteq> QOI_OP_RGB" "l1 \<noteq> QOI_OP_RGBA"
          "l1 AND QOI_MASK_2 = QOI_OP_LUMA" "(l1 AND 0x3f) - 32 = word_of_int vg"
          using luma_byte1 [of vg] by (simp_all add: l1_def medium_def)
        from luma have f2: "drop_bit 4 l2 AND 0x0f = word_of_int (vr - vg) + 8"
          "l2 AND 0x0f = word_of_int (vb - vg) + 8"
          using luma_byte2 [of "vr - vg" "vb - vg"] by (simp_all add: l2_def medium_def)
        have "qr + ((l1 AND 0x3f) - 32 - 8 + (drop_bit 4 l2 AND 0x0f)) = r"
          "qg + ((l1 AND 0x3f) - 32) = g"
          "qb + ((l1 AND 0x3f) - 32 - 8 + (l2 AND 0x0f)) = b"
          unfolding f1(4) f2 using restore by simp_all
        then show ?thesis
          using f1(1-3) QOI_ops_distinct True
          by (simp add: qoi_decode_op_def prev pp p b1 Let_def)
      next
        case False
        with enc True nodiff have "b1 = QOI_OP_RGB" "bs = [r, g, b]"
          by (simp_all add: enc_eq)
        then show ?thesis
          using read_bytes_append [of "[r, g, b]" 3 f] True
          by (simp add: qoi_decode_op_def prev pp p)
      qed
    qed
  qed
qed

lemma qoi_encode_new_not_empty: "qoi_encode_new p prev \<noteq> []"
  by (cases p; cases prev) (simp add: qoi_encode_new_def Let_def)

lemma qoi_decode_op_index:
  assumes "k < 64"
  shows "qoi_decode_op ch px_end (QOI_OP_INDEX OR word_of_nat k) f st
     = qoi_emit ch f (st\<lparr>dec_px := dec_index st ! k\<rparr>)"
proof -
  have "QOI_OP_INDEX OR word_of_nat k = (word_of_nat k :: byte)"
    by (simp add: QOI_OP_INDEX_def)
  with index_byte [OF assms] show ?thesis
    by (simp add: qoi_decode_op_def split: prod.splits)
qed

subsection \<open>Pixels in the buffer\<close>

lemma px_bytes_load:
  assumes "ch = 3 \<or> ch = 4" "j * ch + ch \<le> length buf"
  shows "take ch (px_bytes (qoi_load_px buf ch j)) = take ch (drop (j * ch) buf)"
proof (rule nth_equalityI)
  show "length (take ch (px_bytes (qoi_load_px buf ch j))) = length (take ch (drop (j * ch) buf))"
    using assms by (auto simp: qoi_load_px_def)
next
  fix k
  assume "k < length (take ch (px_bytes (qoi_load_px buf ch j)))"
  then have k: "k < ch" by simp
  then have "k = 0 \<or> k = 1 \<or> k = 2 \<or> k = 3" using assms(1) by auto
  with k assms show "take ch (px_bytes (qoi_load_px buf ch j)) ! k = take ch (drop (j * ch) buf) ! k"
    by (auto simp: qoi_load_px_def)
qed

lemma take_repeated_px:
  assumes "ch = 3 \<or> ch = 4" "(k + m) * ch \<le> length buf"
    and "\<And>j. k \<le> j \<Longrightarrow> j < k + m \<Longrightarrow> qoi_load_px buf ch j = q"
  shows "take (k * ch) buf @ concat (replicate m (take ch (px_bytes q))) = take ((k + m) * ch) buf"
  using assms(2,3)
proof (induction m)
  case 0
  then show ?case by simp
next
  case (Suc m)
  have le: "(k + m) * ch + ch \<le> length buf" using Suc.prems(1) by simp
  then have "(k + m) * ch \<le> length buf" by simp
  then have ih: "take (k * ch) buf @ concat (replicate m (take ch (px_bytes q)))
      = take ((k + m) * ch) buf"
    using Suc.prems(2) by (intro Suc.IH) auto
  have "qoi_load_px buf ch (k + m) = q" using Suc.prems(2) [of "k + m"] by simp
  with px_bytes_load [OF assms(1) le]
  have last: "take ch (px_bytes q) = take ch (drop ((k + m) * ch) buf)" by simp
  have "take (k * ch) buf @ concat (replicate (Suc m) (take ch (px_bytes q)))
      = (take (k * ch) buf @ concat (replicate m (take ch (px_bytes q)))) @ take ch (px_bytes q)"
    unfolding replicate_Suc replicate_append_same [symmetric] by simp
  also have "\<dots> = take ((k + m) * ch) buf @ take ch (px_bytes q)"
    by (simp only: ih)
  also have "\<dots> = take ((k + m) * ch) buf @ take ch (drop ((k + m) * ch) buf)"
    by (simp only: last)
  also have "\<dots> = take ((k + m) * ch + ch) buf" by (simp add: take_add)
  also have "(k + m) * ch + ch = (k + Suc m) * ch" by simp
  finally show ?case .
qed

subsection \<open>What the decoder does with the bytes of one encoder step\<close>

lemma qoi_decode_loop_run:
  assumes inv: "dec_at ch px_end D xs" and room: "length xs + m * unat ch \<le> unat px_end"
    and m: "0 < m" "m \<le> 62"
  shows "\<exists>D1. (\<forall>f. qoi_decode_loop ch px_end ((QOI_OP_RUN OR word_of_nat (m - 1)) # f) D
                 = qoi_decode_loop ch px_end f D1)
     \<and> dec_at ch px_end D1 (xs @ concat (replicate m (take (unat ch) (px_bytes (dec_px D)))))
     \<and> dec_index D1 = dec_index D \<and> dec_px D1 = dec_px D"
proof -
  define b :: byte where "b = QOI_OP_RUN OR word_of_nat (m - 1)"
  let ?pxb = "take (unat ch) (px_bytes (dec_px D))"
  from inv have ch: "unat ch = 3 \<or> unat ch = 4" by (auto simp: dec_at_def)
  then have len_pxb: "length ?pxb = unat ch" by (intro length_take_px_bytes) auto
  have len_c: "length (concat (replicate j ?pxb)) = j * unat ch" for j
    using len_pxb by (simp add: length_concat sum_list_replicate)
  from m have "m - 1 < 62" by simp
  from run_byte [OF this] m have b: "b AND QOI_MASK_2 = QOI_OP_RUN" "b \<noteq> QOI_OP_RGB"
    "b \<noteq> QOI_OP_RGBA" "Suc (unat (b AND 0x3f)) = m"
    unfolding b_def by simp_all
  from room m ch have "length xs < unat px_end" by auto
  then have lt: "dec_pos D < px_end" using dec_at_pos_less [OF inv] by simp
  from qoi_run_loop_ok [OF inv, of m] obtain D1 m' where
    loop: "qoi_run_loop ch px_end m D = Inr D1" and m': "m' \<le> m"
    and inv1: "dec_at ch px_end D1 (xs @ concat (replicate m' ?pxb))"
    and stop: "m' < m \<longrightarrow> \<not> dec_pos D1 < px_end"
    and same: "dec_index D1 = dec_index D" "dec_px D1 = dec_px D"
    by blast
  have "m' = m"
  proof (rule ccontr)
    assume "m' \<noteq> m"
    with m' have less: "m' < m" by simp
    with stop dec_at_pos_less [OF inv1] dec_at_length [OF inv1]
    have "length xs + m' * unat ch = unat px_end" by (simp add: len_c)
    with room ch have "m \<le> m'" by auto
    with less show False by simp
  qed
  have "qoi_decode_loop ch px_end (b # f) D = qoi_decode_loop ch px_end f D1" for f
    using loop
    by (simp add: qoi_decode_loop_step [OF lt] qoi_decode_op_run [OF b(1-3)] b(4)
        del: qoi_run_loop.simps)
  with inv1 same \<open>m' = m\<close> show ?thesis unfolding b_def by blast
qed

lemma qoi_decode_loop_px:
  assumes inv: "dec_at ch px_end D xs" and lt: "dec_pos D < px_end"
    and op: "\<And>f. qoi_decode_op ch px_end b1 (bs @ f) D = qoi_emit ch f (D\<lparr>dec_px := p\<rparr>)"
  shows "\<exists>D1. (\<forall>f. qoi_decode_loop ch px_end (b1 # bs @ f) D = qoi_decode_loop ch px_end f D1)
     \<and> dec_at ch px_end D1 (xs @ take (unat ch) (px_bytes p))
     \<and> dec_index D1 = (dec_index D)[qoi_hash p := p] \<and> dec_px D1 = p"
proof -
  have "\<exists>D1. qoi_emit ch f (D\<lparr>dec_px := p\<rparr>) = Inr (D1, f)
     \<and> dec_at ch px_end D1 (xs @ take (unat ch) (px_bytes p))
     \<and> dec_index D1 = (dec_index D)[qoi_hash p := p] \<and> dec_px D1 = p" for f
    by (rule qoi_emit_px_ok [OF inv lt])
  from this [of "[]"] obtain D1 where
    e: "qoi_emit ch [] (D\<lparr>dec_px := p\<rparr>) = Inr (D1, [])"
    and rest: "dec_at ch px_end D1 (xs @ take (unat ch) (px_bytes p))"
      "dec_index D1 = (dec_index D)[qoi_hash p := p]" "dec_px D1 = p"
    by blast
  have "qoi_emit ch f (D\<lparr>dec_px := p\<rparr>) = Inr (D1, f)" for f
    using e by (auto simp: qoi_emit_def split: sum.splits)
  then have "qoi_decode_loop ch px_end (b1 # bs @ f) D = qoi_decode_loop ch px_end f D1" for f
    by (simp add: qoi_decode_loop_step [OF lt] op)
  with rest show ?thesis by blast
qed

lemma unat_word_of_nat_size: "x < 2 ^ 64 \<Longrightarrow> unat (word_of_nat x :: size_t) = x"
  by (simp add: unat_of_nat)

lemma qoi_encode_px_new:
  assumes "p \<noteq> enc_prev st"
  shows "enc_index (qoi_encode_px is_last p st) =
       (if enc_index st ! qoi_hash p = p then enc_index st else (enc_index st)[qoi_hash p := p])"
    "enc_prev (qoi_encode_px is_last p st) = p"
    "enc_run (qoi_encode_px is_last p st) = 0"
    "enc_data (qoi_encode_px is_last p st) = enc_data st
       @ (if 0 < enc_run st then [QOI_OP_RUN OR word_of_nat (enc_run st - 1)] else [])
       @ (if enc_index st ! qoi_hash p = p then [QOI_OP_INDEX OR word_of_nat (qoi_hash p)]
          else qoi_encode_new p (enc_prev st))"
  using assms by (simp_all add: qoi_encode_px_def Let_def qoi_flush_run_def)

lemma qoi_sim_step:
  assumes sim: "qoi_sim buf ch n i st D" and i: "i < n"
  shows "\<exists>zs D1. enc_data (qoi_encode_px (i = n - 1) (qoi_load_px buf ch i) st) = enc_data st @ zs
     \<and> qoi_sim buf ch n (Suc i) (qoi_encode_px (i = n - 1) (qoi_load_px buf ch i) st) D1
     \<and> (\<forall>f. qoi_decode_loop (word_of_nat ch) (word_of_nat (n * ch)) (zs @ f) D
            = qoi_decode_loop (word_of_nat ch) (word_of_nat (n * ch)) f D1)"
proof -
  define chw :: size_t where "chw = word_of_nat ch"
  define e :: size_t where "e = word_of_nat (n * ch)"
  define p where "p = qoi_load_px buf ch i"
  define r where "r = enc_run st"
  define q where "q = enc_prev st"
  define st' where "st' = qoi_encode_px (i = n - 1) p st"
  from sim have ch: "ch = 3 \<or> ch = 4" and len: "length buf = n * ch" and fits: "n * ch < 2 ^ 64"
    and r: "r \<le> i" "r < 62"
    and same: "\<And>j. i - r \<le> j \<Longrightarrow> j < i \<Longrightarrow> qoi_load_px buf ch j = q"
    and idx: "dec_index D = enc_index st" "length (enc_index st) = 64"
    and px: "dec_px D = q"
    and at: "dec_at chw e D (take ((i - r) * ch) buf)"
    unfolding qoi_sim_def chw_def e_def r_def q_def by auto
  have chw: "unat chw = ch" using ch unfolding chw_def by auto
  have e: "unat e = n * ch" unfolding e_def using fits by (rule unat_word_of_nat_size)
  have next_fits: "(i + 1) * ch \<le> length buf"
    using i len by (metis Suc_eq_plus1 Suc_leI mult_le_mono1)
  have take_len: "length (take (j * ch) buf) = j * ch" if "j \<le> n" for j
    using that len by simp
  have sim_intro: "qoi_sim buf ch n (Suc i) st' D1"
    if "enc_run st' \<le> Suc i" "enc_run st' < 62" "Suc i < n \<or> enc_run st' = 0"
      "\<And>j. Suc i - enc_run st' \<le> j \<Longrightarrow> j < Suc i \<Longrightarrow> qoi_load_px buf ch j = enc_prev st'"
      "dec_index D1 = enc_index st'" "length (enc_index st') = 64" "dec_px D1 = enc_prev st'"
      "dec_at chw e D1 (take ((Suc i - enc_run st') * ch) buf)"
    for D1
    using that ch len fits i unfolding qoi_sim_def chw_def e_def by auto
  show ?thesis
  proof (cases "p = q")
    case True
    have all_same: "qoi_load_px buf ch j = q" if "i - r \<le> j" "j < Suc i" for j
      using that same [of j] True p_def by (cases "j = i") auto
    show ?thesis
    proof (cases "r + 1 = 62 \<or> i = n - 1")
      case flush: True
      have st': "st' = st\<lparr>enc_data := enc_data st @ [QOI_OP_RUN OR word_of_nat r], enc_run := 0\<rparr>"
        unfolding st'_def r_def using True flush
        by (intro qoi_encode_px_repeat_flush) (auto simp: q_def r_def)
      have room: "length (take ((i - r) * ch) buf) + (r + 1) * unat chw \<le> unat e"
      proof -
        have "(i - r) * ch + (r + 1) * ch = (i + 1) * ch"
          using r(1) by (simp add: add_mult_distrib [symmetric])
        moreover have "length (take ((i - r) * ch) buf) = (i - r) * ch"
          using i by (intro take_len) simp
        ultimately show ?thesis using next_fits len by (simp only: chw e)
      qed
      from qoi_decode_loop_run [OF at room] r(2) obtain D1 where
        D1: "\<And>f. qoi_decode_loop chw e ((QOI_OP_RUN OR word_of_nat (r + 1 - 1)) # f) D
               = qoi_decode_loop chw e f D1"
        and at1: "dec_at chw e D1 (take ((i - r) * ch) buf
               @ concat (replicate (r + 1) (take (unat chw) (px_bytes (dec_px D)))))"
        and same1: "dec_index D1 = dec_index D" "dec_px D1 = dec_px D"
        by auto
      have "take ((i - r) * ch) buf @ concat (replicate (r + 1) (take ch (px_bytes q)))
          = take ((i - r + (r + 1)) * ch) buf"
        using next_fits r(1) all_same by (intro take_repeated_px [OF ch]) auto
      with at1 have at1': "dec_at chw e D1 (take (Suc i * ch) buf)"
        using r(1) by (simp add: chw px)
      have "qoi_sim buf ch n (Suc i) st' D1"
        using at1' same1 idx px by (intro sim_intro) (simp_all add: st' q_def)
      moreover have "enc_data st' = enc_data st @ [QOI_OP_RUN OR word_of_nat r]"
        by (simp add: st')
      moreover have "qoi_decode_loop chw e ([QOI_OP_RUN OR word_of_nat r] @ f) D
          = qoi_decode_loop chw e f D1" for f
        using D1 [of f] by simp
      ultimately show ?thesis
        unfolding st'_def p_def chw_def e_def by blast
    next
      case keep: False
      have st': "st' = st\<lparr>enc_run := enc_run st + 1\<rparr>"
        unfolding st'_def using True keep
        by (intro qoi_encode_px_repeat) (auto simp: q_def r_def)
      have "Suc i < n" using keep i by auto
      then have "qoi_sim buf ch n (Suc i) st' D"
        using at idx px r keep all_same
        by (intro sim_intro) (auto simp: st' q_def r_def)
      moreover have "enc_data st' = enc_data st @ []" by (simp add: st')
      ultimately show ?thesis
        unfolding st'_def p_def chw_def e_def by (metis append_Nil)
    qed
  next
    case False
    then have new: "p \<noteq> enc_prev st" by (simp add: q_def)
    note st' = qoi_encode_px_new [OF new, of "i = n - 1", folded st'_def]
    define zs1 where
      "zs1 = (if 0 < r then [QOI_OP_RUN OR word_of_nat (r - 1) :: byte] else [])"
    have flushed: "\<exists>D0. (\<forall>f. qoi_decode_loop chw e (zs1 @ f) D = qoi_decode_loop chw e f D0)
        \<and> dec_at chw e D0 (take (i * ch) buf)
        \<and> dec_index D0 = dec_index D \<and> dec_px D0 = dec_px D"
    proof (cases "0 < r")
      case False
      then show ?thesis using at by (intro exI [of _ D]) (simp add: zs1_def)
    next
      case True
      have "(i - r) * ch + r * ch = i * ch"
        using r(1) by (simp add: add_mult_distrib [symmetric])
      moreover have "i * ch \<le> n * ch" using i by simp
      moreover have "length (take ((i - r) * ch) buf) = (i - r) * ch"
        using i by (intro take_len) simp
      ultimately have room: "length (take ((i - r) * ch) buf) + r * unat chw \<le> unat e"
        by (simp only: chw e)
      from qoi_decode_loop_run [OF at room True] r(2) obtain D0 where
        D0: "\<And>f. qoi_decode_loop chw e ((QOI_OP_RUN OR word_of_nat (r - 1)) # f) D
               = qoi_decode_loop chw e f D0"
        and at0: "dec_at chw e D0 (take ((i - r) * ch) buf
               @ concat (replicate r (take (unat chw) (px_bytes (dec_px D)))))"
        and same0: "dec_index D0 = dec_index D" "dec_px D0 = dec_px D"
        by auto
      have "take ((i - r) * ch) buf @ concat (replicate r (take ch (px_bytes q)))
          = take ((i - r + r) * ch) buf"
        using len i r(1) same by (intro take_repeated_px [OF ch]) auto
      with at0 have "dec_at chw e D0 (take (i * ch) buf)"
        using r(1) by (simp add: chw px)
      with D0 same0 True show ?thesis
        by (intro exI [of _ D0]) (simp add: zs1_def)
    qed
    then obtain D0 where
      D0: "\<And>f. qoi_decode_loop chw e (zs1 @ f) D = qoi_decode_loop chw e f D0"
      and at0: "dec_at chw e D0 (take (i * ch) buf)"
      and same0: "dec_index D0 = enc_index st" "dec_px D0 = q"
      using idx px by auto
    have lt0: "dec_pos D0 < e"
      using dec_at_pos_less [OF at0] i len ch by (auto simp: e)
    define zs2 where
      "zs2 = (if enc_index st ! qoi_hash p = p then [QOI_OP_INDEX OR word_of_nat (qoi_hash p)]
              else qoi_encode_new p q)"
    have "\<exists>b1 bs. zs2 = b1 # bs
        \<and> (\<forall>f. qoi_decode_op chw e b1 (bs @ f) D0 = qoi_emit chw f (D0\<lparr>dec_px := p\<rparr>))"
    proof (cases "enc_index st ! qoi_hash p = p")
      case True
      then show ?thesis
        using qoi_decode_op_index [of "qoi_hash p" chw e _ D0] same0
        by (simp add: zs2_def)
    next
      case False
      obtain b1 bs where "qoi_encode_new p q = b1 # bs"
        using qoi_encode_new_not_empty [of p q] by (cases "qoi_encode_new p q") auto
      with False qoi_decode_op_new [OF same0(2) this] show ?thesis
        by (simp add: zs2_def)
    qed
    then obtain b1 bs where zs2: "zs2 = b1 # bs"
      and op: "\<And>f. qoi_decode_op chw e b1 (bs @ f) D0 = qoi_emit chw f (D0\<lparr>dec_px := p\<rparr>)"
      by blast
    from qoi_decode_loop_px [OF at0 lt0 op] obtain D1 where
      D1: "\<And>f. qoi_decode_loop chw e (b1 # bs @ f) D0 = qoi_decode_loop chw e f D1"
      and at1: "dec_at chw e D1 (take (i * ch) buf @ take (unat chw) (px_bytes p))"
      and same1: "dec_index D1 = (dec_index D0)[qoi_hash p := p]" "dec_px D1 = p"
      by blast
    have "take ch (px_bytes p) = take ch (drop (i * ch) buf)"
      unfolding p_def using next_fits by (intro px_bytes_load [OF ch]) simp
    then have "take (i * ch) buf @ take ch (px_bytes p) = take (i * ch + ch) buf"
      by (simp only: take_add)
    moreover have "i * ch + ch = Suc i * ch" by simp
    ultimately have "take (i * ch) buf @ take ch (px_bytes p) = take (Suc i * ch) buf"
      by (simp only:)
    with at1 have at1': "dec_at chw e D1 (take (Suc i * ch) buf)" by (simp add: chw)
    have index1: "dec_index D1 = enc_index st'"
      using same1(1) same0(1) idx(2) by (simp add: st'(1) list_update_same_conv)
    have "qoi_sim buf ch n (Suc i) st' D1"
      using at1' same1(2) index1 idx(2) by (intro sim_intro) (simp_all add: st')
    moreover have "enc_data st' = enc_data st @ (zs1 @ zs2)"
      by (simp add: st'(4) zs1_def zs2_def r_def q_def)
    moreover have "qoi_decode_loop chw e ((zs1 @ zs2) @ f) D = qoi_decode_loop chw e f D1" for f
      using D0 [of "zs2 @ f"] D1 [of f] by (simp add: zs2)
    ultimately show ?thesis
      unfolding st'_def p_def chw_def e_def by blast
  qed
qed

lemma qoi_decode_encoded:
  assumes "qoi_sim buf ch n i st D"
  shows "\<exists>st' zs. qoi_encode_loop buf ch n i st = Inr st' \<and> enc_data st' = enc_data st @ zs
     \<and> (\<forall>rest. \<exists>D'. qoi_decode_loop (word_of_nat ch) (word_of_nat (n * ch)) (zs @ rest) D
            = Inr (D', rest) \<and> dec_pixels D' = buf)"
  using assms
proof (induction "n - i" arbitrary: i st D)
  case 0
  define e :: size_t where "e = word_of_nat (n * ch)"
  from 0 have i: "i = n" and run: "enc_run st = 0" and len: "length buf = n * ch"
    and fits: "n * ch < 2 ^ 64"
    and at: "dec_at (word_of_nat ch) e D (take ((i - enc_run st) * ch) buf)"
    by (auto simp: qoi_sim_def e_def)
  have e: "unat e = n * ch" unfolding e_def using fits by (rule unat_word_of_nat_size)
  from at i run len have at': "dec_at (word_of_nat ch) e D buf" by simp
  have "\<not> dec_pos D < e"
    using dec_at_pos_less [OF at'] len by (simp add: e)
  with dec_at_full [OF at'] have "dec_pixels D = buf"
    "qoi_decode_loop (word_of_nat ch) e rest D = Inr (D, rest)" for rest
    by (simp_all add: qoi_decode_loop_done)
  moreover have "qoi_encode_loop buf ch n i st = Inr st"
    using i by (simp add: qoi_encode_loop_done)
  ultimately show ?case unfolding e_def by (intro exI [of _ st] exI [of _ "[]"]) simp
next
  case (Suc k)
  then have i: "i < n" by simp
  from Suc.prems have len: "n * ch \<le> length buf" by (simp add: qoi_sim_def)
  let ?st1 = "qoi_encode_px (i = n - 1) (qoi_load_px buf ch i) st"
  from qoi_sim_step [OF Suc.prems i] obtain zs D1 where
    data: "enc_data ?st1 = enc_data st @ zs"
    and sim1: "qoi_sim buf ch n (Suc i) ?st1 D1"
    and dec: "\<And>f. qoi_decode_loop (word_of_nat ch) (word_of_nat (n * ch)) (zs @ f) D
            = qoi_decode_loop (word_of_nat ch) (word_of_nat (n * ch)) f D1"
    by blast
  have "k = n - Suc i" using Suc.hyps(2) by simp
  from Suc.hyps(1) [OF this sim1] obtain st' zs' where
    loop: "qoi_encode_loop buf ch n (Suc i) ?st1 = Inr st'"
    and data': "enc_data st' = enc_data ?st1 @ zs'"
    and dec': "\<And>rest. \<exists>D'. qoi_decode_loop (word_of_nat ch) (word_of_nat (n * ch)) (zs' @ rest) D1
            = Inr (D', rest) \<and> dec_pixels D' = buf"
    by blast
  have "qoi_encode_loop buf ch n i st = Inr st'"
    using qoi_encode_loop_step [OF i len, of st] loop by simp
  moreover have "enc_data st' = enc_data st @ (zs @ zs')" using data data' by simp
  moreover have "\<exists>D'. qoi_decode_loop (word_of_nat ch) (word_of_nat (n * ch)) ((zs @ zs') @ rest) D
            = Inr (D', rest) \<and> dec_pixels D' = buf" for rest
    using dec [of "zs' @ rest"] dec' [of rest] by simp
  ultimately show ?case by blast
qed

subsection \<open>The header\<close>

lemma length_qoi_write32be [simp]: "length (qoi_write32be v) = 4"
  by (simp add: qoi_write32be_def)

lemma length_qoi_header [simp]: "length (qoi_header img) = 14"
  by (simp add: qoi_header_def)

lemma qoi_header_fields:
  "qoi_read32be (qoi_header img) = QOI_MAGIC"
  "qoi_read32be (drop 4 (qoi_header img)) = width img"
  "qoi_read32be (drop 8 (qoi_header img)) = height img"
  "qoi_header img ! 12 = ucast (channels img)"
  by (simp_all add: qoi_header_def qoi_read32be_write32be nth_append)

lemma read_bytes_qoi_header:
  "read_bytes QOI_HEADER_SIZE (qoi_header img @ f) = Some (qoi_header img, f)"
  by (rule read_bytes_append) (simp add: QOI_HEADER_SIZE_def)

lemma size_of_int_nat:
  assumes "0 \<le> sint x"
  shows "size_of_int x = word_of_nat (nat (sint x))"
proof -
  have "size_of_int x = word_of_nat (unat (size_of_int x))" by simp
  then show ?thesis by (simp only: unat_size_of_int [OF assms])
qed

lemma uint_nonneg_c_int:
  assumes "0 \<le> sint (x :: c_int)"
  shows "uint x = sint x"
proof -
  have "sint x < 2 ^ 32" using sint_c_int_bound [of x] by simp
  with assms have "take_bit 32 (sint x) = sint x" by (simp only: take_bit_int_eq_self)
  then show ?thesis using uint_sint [of x] by simp
qed

lemma ucast_nonneg:
  assumes "0 \<le> sint (x :: c_int)"
  shows "(ucast x :: size_t) = size_of_int x"
proof -
  have "uint x < 2 ^ 64" using uint_bounded [of x] by simp
  then have "take_bit 64 (uint x) = uint x" by (simp only: take_bit_int_eq_self uint_nonnegative)
  then have "uint (ucast x :: size_t) = uint x" by (simp add: unsigned_ucast_eq)
  then have "unat (ucast x :: size_t) = nat (sint x)"
    using uint_nonneg_c_int [OF assms] by (simp add: unat_eq_nat_uint del: nat_uint_eq)
  then show ?thesis
    using unat_size_of_int [OF assms] by (simp add: word_unat_eq_iff)
qed

lemma c_int_not_above_INT_MAX:
  assumes "0 \<le> sint (x :: c_int)"
  shows "\<not> x > 0x7fffffff"
proof -
  have "uint x < 2147483648"
    using uint_nonneg_c_int [OF assms] sint_c_int_bound [of x] by simp
  then show ?thesis by (simp add: word_less_def)
qed

lemma channels_byte:
  assumes "chans = 3 \<or> chans = 4"
  shows "(ucast (ucast (chans :: c_int) :: byte) :: c_int) = chans"
    "size_of_int chans = word_of_nat (nat (sint chans))" "nat (sint chans) = 3 \<or> nat (sint chans) = 4"
  using assms by (auto simp: size_of_int_def)

lemma qoi_encode_loop_total:
  assumes "n * ch \<le> length buf"
  shows "\<exists>st'. qoi_encode_loop buf ch n i st = Inr st'"
proof (induction "n - i" arbitrary: i st)
  case 0
  then show ?case by (simp add: qoi_encode_loop_done)
next
  case (Suc k)
  then have "i < n" "k = n - Suc i" by simp_all
  with Suc.hyps(1) [of "Suc i"] qoi_encode_loop_step [OF _ assms, of i st]
  show ?case by simp
qed

lemma qoi_write_succeeds:
  assumes dims: "image_validate_dims img"
    and buf: "pixels img = Some buf"
      "length buf = nat (sint (width img)) * nat (sint (height img)) * nat (sint (channels img))"
    and fits: "14 + nat (sint (width img)) * nat (sint (height img))
        * (nat (sint (channels img)) + 1) + 8 < 2 ^ 64"
    and room: "malloc (word_of_nat (14 + nat (sint (width img)) * nat (sint (height img))
        * (nat (sint (channels img)) + 1) + 8)) \<noteq> None"
  shows "\<exists>bytes. qoi_write malloc img = Inr bytes"
proof -
  define C where "C = nat (sint (channels img))"
  define n where "n = nat (sint (width img)) * nat (sint (height img))"
  define chw where "chw = size_of_int (channels img)"
  from dims have pos: "0 \<le> sint (width img)" "0 \<le> sint (height img)"
    and chans: "channels img = 3 \<or> channels img = 4"
    by (auto simp: image_validate_dims_def word_sless_alt)
  note ch = channels_byte [OF chans, folded C_def chw_def]
  have uchw: "unat chw = C" "unat (chw + 1) = C + 1" using ch(2,3) by (auto simp: unat_of_nat)
  define pc where "pc = size_of_int (width img) * size_of_int (height img)"
  have "unat (size_of_int (width img)) * unat (size_of_int (height img)) < 2 ^ 64"
    using pos by (rule c_int_product_fits)
  then have pc: "checked_mul_size (size_of_int (width img)) (size_of_int (height img)) = Some pc"
    by (simp add: checked_mul_size_eq pc_def)
  have upc: "unat pc = n"
    using checked_mul_size_SomeD [OF pc, THEN conjunct2] pos
    by (simp add: n_def unat_size_of_int)
  from fits have f1: "unat pc * unat (chw + 1) < 2 ^ 64"
    unfolding upc uchw n_def C_def by simp
  define db where "db = pc * (chw + 1)"
  from f1 have db: "checked_mul_size pc (chw + 1) = Some db"
    by (simp add: checked_mul_size_eq db_def)
  have udb: "unat db = n * (C + 1)"
    using checked_mul_size_SomeD [OF db, THEN conjunct2] by (simp add: upc uchw)
  define m0 :: size_t where "m0 = 14 + db"
  from fits have "unat (14 :: size_t) + unat db < 2 ^ 64"
    unfolding udb n_def C_def by simp
  then have m0: "checked_add_size (word_of_nat QOI_HEADER_SIZE) db = Some m0"
    by (simp add: checked_add_size_eq m0_def QOI_HEADER_SIZE_def)
  have um0: "unat m0 = 14 + n * (C + 1)"
    using m0 by (simp add: checked_add_size_Some_iff udb QOI_HEADER_SIZE_def)
  define m1 :: size_t where "m1 = m0 + 8"
  from fits have "unat m0 + unat (8 :: size_t) < 2 ^ 64"
    unfolding um0 n_def C_def by simp
  then have m1: "checked_add_size m0 (word_of_nat QOI_END_MARKER_SIZE) = Some m1"
    by (simp add: checked_add_size_eq m1_def QOI_END_MARKER_SIZE_def)
  have "unat m1 = 14 + n * (C + 1) + 8"
    using m1 by (simp add: checked_add_size_Some_iff um0 QOI_END_MARKER_SIZE_def)
  then have "m1 = word_of_nat (14 + n * (C + 1) + 8)"
    by (metis of_nat_unat ucast_id)
  with room obtain data where alloc: "malloc m1 = Some data"
    unfolding n_def C_def by auto
  have "unat pc * unat chw \<le> length buf"
    using buf(2) by (simp add: upc uchw n_def C_def)
  from qoi_encode_loop_total [OF this] obtain st where
    "qoi_encode_loop buf (unat chw) (unat pc) 0
       \<lparr>enc_index = replicate 64 (0, 0, 0, 0), enc_prev = (0, 0, 0, 255), enc_run = 0,
        enc_data = qoi_header img\<rparr> = Inr st"
    by blast
  then show ?thesis
    using dims pc db m0 m1 alloc buf(1)
    by (simp add: qoi_write_def chw_def [symmetric])
qed

lemma qoi_read_written:
  assumes heap: "malloc_spec malloc"
    and dims: "image_validate_dims img"
    and buf: "pixels img = Some buf"
      "length buf = nat (sint (width img)) * nat (sint (height img)) * nat (sint (channels img))"
    and ceiling: "image_check_max_pixels c (width img) (height img)"
    and written: "qoi_write malloc img = Inr bytes"
    and room: "malloc (word_of_nat (length buf)) \<noteq> None"
  shows "qoi_read malloc c bytes = Inr img"
proof -
  define C where "C = nat (sint (channels img))"
  define chw where "chw = size_of_int (channels img)"
  let ?init = "\<lparr>enc_index = replicate 64 (0, 0, 0, 0), enc_prev = (0, 0, 0, 255), enc_run = 0,
      enc_data = qoi_header img\<rparr>"
  from dims have pos: "0 \<le> sint (width img)" "0 \<le> sint (height img)"
    "width img \<noteq> 0" "height img \<noteq> 0" and chans: "channels img = 3 \<or> channels img = 4"
    by (auto simp: image_validate_dims_def word_sless_alt)
  note ch = channels_byte [OF chans, folded C_def chw_def]
  from written dims buf(1) obtain pc data_bytes st where
    pc: "checked_mul_size (size_of_int (width img)) (size_of_int (height img)) = Some pc"
    and db: "checked_mul_size pc (chw + 1) = Some data_bytes"
    and loop: "qoi_encode_loop buf (unat chw) (unat pc) 0 ?init = Inr st"
    and bytes: "bytes = enc_data st @ qoi_end_marker"
    unfolding qoi_write_def chw_def
    by (auto split: option.splits sum.splits)
  define n where "n = unat pc"
  have n: "n = nat (sint (width img)) * nat (sint (height img))"
    using checked_mul_size_SomeD [OF pc, THEN conjunct2] pos
    by (simp add: n_def unat_size_of_int)
  have uchw: "unat chw = C" using ch(2,3) by (auto simp: unat_of_nat)
  have "unat (chw + 1) = C + 1" using ch(2,3) by (auto simp: unat_of_nat)
  with checked_mul_size_SomeD [OF db, THEN conjunct2] have "n * (C + 1) = unat data_bytes"
    by (simp add: n_def)
  moreover have "unat data_bytes < 2 ^ 64" using unsigned_less [of data_bytes] by simp
  ultimately have fits: "n * C < 2 ^ 64" by simp
  have len: "length buf = n * C" using buf(2) by (simp add: n C_def)
  define ew :: size_t where "ew = word_of_nat (n * C)"
  define cw :: size_t where "cw = word_of_nat C"
  have uew: "unat ew = n * C" unfolding ew_def using fits by (rule unat_word_of_nat_size)
  have cw: "chw = cw" using ch(2) by (simp add: cw_def)
  have e: "pc * chw = ew" by (simp add: n_def ch(2) ew_def)
  from room obtain buf0 where buf0: "malloc ew = Some buf0"
    unfolding ew_def len by auto
  with heap have len0: "length buf0 = n * C"
    by (auto simp: malloc_spec_def uew)
  let ?D = "\<lparr>dec_index = replicate 64 (0, 0, 0, 0), dec_px = (0, 0, 0, 255), dec_pos = 0,
      dec_pixels = buf0\<rparr>"
  have ucw: "unat cw = C" using uchw cw by simp
  have "cw = 3 \<or> cw = 4" using ch(3) by (auto simp: cw_def)
  then have "dec_at cw ew ?D []"
    using len0 by (simp add: dec_at_def uew ucw)
  then have "qoi_sim buf C n 0 ?init ?D"
    using ch(3) len fits unfolding qoi_sim_def ew_def cw_def by auto
  from qoi_decode_encoded [OF this, folded ew_def cw_def] loop obtain zs D' where
    data: "enc_data st = qoi_header img @ zs"
    and dec: "qoi_decode_loop cw ew (zs @ qoi_end_marker) ?D = Inr (D', qoi_end_marker)"
    and out: "dec_pixels D' = buf"
    unfolding uchw n_def [symmetric] by fastforce
  have rd: "read_bytes QOI_HEADER_SIZE bytes = Some (qoi_header img, zs @ qoi_end_marker)"
    unfolding bytes data using read_bytes_qoi_header [of img "zs @ qoi_end_marker"] by simp
  have lim: "\<not> (width img = 0 \<or> height img = 0 \<or> width img > 0x7fffffff
      \<or> height img > 0x7fffffff)"
    using pos c_int_not_above_INT_MAX by auto
  have pc_rd: "checked_mul_size (ucast (width img)) (ucast (height img) :: size_t) = Some pc"
    using pc pos by (simp add: ucast_nonneg)
  have "unat pc * unat chw < 2 ^ 64" using fits by (simp add: n_def uchw)
  then have pb_rd: "checked_mul_size pc chw = Some (pc * chw)"
    by (simp add: checked_mul_size_eq)
  have "qoi_read_stream malloc c bytes
      = Inr (\<lparr>pixels = Some buf, width = width img, height = height img,
              channels = channels img\<rparr>, qoi_end_marker)"
    unfolding qoi_read_stream_def rd option.case prod.case Let_def qoi_header_fields ch(1)
    using lim chans pc_rd pb_rd ceiling buf0 dec out
    by (simp add: chw_def [symmetric] e cw [symmetric])
  moreover have "\<lparr>pixels = Some buf, width = width img, height = height img,
      channels = channels img\<rparr> = img"
    using buf(1) by (cases img) simp
  ultimately show ?thesis by (simp add: qoi_read_def)
qed


text \<open>
  Claim C1. Let an image have positive width and height, 3 or 4 channels, a pixel buffer
  of exactly width * height * channels bytes, and a pixel count that passes the ceiling
  check (the ceiling is 0 or at least the count). Whenever \<open>qoi_write\<close> produces a byte
  stream for it, \<open>qoi_read\<close> succeeds on that stream and returns the same image: the same
  width, height and channels and exactly the same pixel bytes. The allocator is taken to
  grant the decoder its buffer. \<open>qoi_write\<close> does produce a stream whenever its size
  computation fits in \<open>size_t\<close> and its own allocation is granted.
\<close>

theorem qoi_round_trip:
  assumes "malloc_spec malloc"
    and "image_validate_dims img"
    and "pixels img = Some buf"
      "length buf = nat (sint (width img)) * nat (sint (height img)) * nat (sint (channels img))"
    and "image_check_max_pixels c (width img) (height img)"
    and "malloc (word_of_nat (length buf)) \<noteq> None"
  shows "(\<forall>bytes. qoi_write malloc img = Inr bytes \<longrightarrow> qoi_read malloc c bytes = Inr img)
     \<and> (14 + nat (sint (width img)) * nat (sint (height img)) * (nat (sint (channels img)) + 1)
            + 8 < 2 ^ 64
          \<and> malloc (word_of_nat (14 + nat (sint (width img)) * nat (sint (height img))
              * (nat (sint (channels img)) + 1) + 8)) \<noteq> None
        \<longrightarrow> (\<exists>bytes. qoi_write malloc img = Inr bytes))"
  using assms qoi_read_written [of malloc img buf c] qoi_write_succeeds [of img buf malloc]
  by blast

theorem qoi_round_trip_witness:
  "qoi_write small_heap
      \<lparr>pixels = Some [1, 2, 3, 1, 2, 3, 4, 5, 6, 1, 2, 3, 200, 100, 0, 0, 0, 0],
       width = 3, height = 2, channels = 3\<rparr>
     = Inr [0x71, 0x6f, 0x69, 0x66, 0, 0, 0, 3, 0, 0, 0, 2, 3, 1,
            162, 121, 192, 163, 136, 23, 254, 200, 100, 0, 254, 0, 0, 0,
            0, 0, 0, 0, 0, 0, 0, 1]
   \<and> qoi_read small_heap 100
       [0x71, 0x6f, 0x69, 0x66, 0, 0, 0, 3, 0, 0, 0, 2, 3, 1,
        162, 121, 192, 163, 136, 23, 254, 200, 100, 0, 254, 0, 0, 0,
        0, 0, 0, 0, 0, 0, 0, 1]
     = Inr \<lparr>pixels = Some [1, 2, 3, 1, 2, 3, 4, 5, 6, 1, 2, 3, 200, 100, 0, 0, 0, 0],
            width = 3, height = 2, channels = 3\<rparr>"
proof -
  let ?buf = "[1, 2, 3, 1, 2, 3, 4, 5, 6, 1, 2, 3, 200, 100, 0, 0, 0, 0 :: byte]"
  let ?img = "\<lparr>pixels = Some ?buf, width = 3, height = 2, channels = 3\<rparr>"
  have w: "qoi_write small_heap ?img
     = Inr [0x71, 0x6f, 0x69, 0x66, 0, 0, 0, 3, 0, 0, 0, 2, 3, 1,
            162, 121, 192, 163, 136, 23, 254, 200, 100, 0, 254, 0, 0, 0,
            0, 0, 0, 0, 0, 0, 0, 1]"
    by code_simp
  have h: "malloc_spec small_heap" by (rule small_heap_spec)
  have d: "image_validate_dims ?img" by (simp add: image_validate_dims_def word_sless_alt)
  have l: "length ?buf = nat (sint (width ?img)) * nat (sint (height ?img))
      * nat (sint (channels ?img))"
    by simp
  have c: "image_check_max_pixels 100 (width ?img) (height ?img)"
    by (simp add: image_check_max_pixels_def checked_mul_size_def SIZE_MAX_def size_of_int_def
        word_le_nat_alt unat_div)
  have r: "small_heap (word_of_nat (length ?buf)) \<noteq> None"
    by (simp add: small_heap_def)
  from qoi_round_trip [of small_heap ?img ?buf 100, OF h d _ l c r] w show ?thesis
    by simp
qed

section \<open>The QOI decoder stops at the last operation\<close>

lemma qoi_emit_px_all:
  assumes "dec_at ch px_end st xs" "dec_pos st < px_end"
  shows "\<exists>st' ys. (\<forall>f. qoi_emit ch f (st\<lparr>dec_px := p\<rparr>) = Inr (st', f))
     \<and> dec_at ch px_end st' (xs @ ys) \<and> length ys = unat ch"
proof -
  from qoi_emit_px_ok [OF assms, of "[]" p] obtain st' where
    e: "qoi_emit ch [] (st\<lparr>dec_px := p\<rparr>) = Inr (st', [])"
    and inv: "dec_at ch px_end st' (xs @ take (unat ch) (px_bytes p))"
    by blast
  from e have "qoi_emit ch f (st\<lparr>dec_px := p\<rparr>) = Inr (st', f)" for f
    by (auto simp: qoi_emit_def split: sum.splits)
  moreover from assms(1) have "unat ch = 3 \<or> unat ch = 4" by (auto simp: dec_at_def)
  then have "length (take (unat ch) (px_bytes p)) = unat ch"
    by (intro length_take_px_bytes) auto
  ultimately show ?thesis using inv by blast
qed

lemma qoi_run_loop_count:
  assumes inv: "dec_at ch px_end st xs"
  shows "\<exists>st' ys. qoi_run_loop ch px_end n st = Inr st'
     \<and> dec_at ch px_end st' (xs @ ys)
     \<and> length ys = min (n * unat ch) (unat px_end - length xs)"
proof -
  let ?pxb = "take (unat ch) (px_bytes (dec_px st))"
  from inv have ch: "unat ch = 3 \<or> unat ch = 4" by (auto simp: dec_at_def)
  then have len_pxb: "length ?pxb = unat ch" by (intro length_take_px_bytes) auto
  from qoi_run_loop_ok [OF inv, of n] obtain st' m where
    loop: "qoi_run_loop ch px_end n st = Inr st'" and m: "m \<le> n"
    and inv': "dec_at ch px_end st' (xs @ concat (replicate m ?pxb))"
    and stop: "m < n \<longrightarrow> \<not> dec_pos st' < px_end"
    by blast
  have len_c: "length (concat (replicate m ?pxb)) = m * unat ch"
    using len_pxb by (simp add: length_concat sum_list_replicate)
  have le: "length xs + m * unat ch \<le> unat px_end"
    using dec_at_length [OF inv'] by (simp add: len_c)
  have "m * unat ch = min (n * unat ch) (unat px_end - length xs)"
  proof (cases "m < n")
    case True
    with stop dec_at_pos_less [OF inv'] le
    have "length xs + m * unat ch = unat px_end" by (simp add: len_c)
    moreover from m have "m * unat ch \<le> n * unat ch" by simp
    ultimately show ?thesis by linarith
  next
    case False
    with m have "m = n" by simp
    with le show ?thesis by simp
  qed
  with loop inv' len_c show ?thesis by metis
qed

lemma qoi_decode_op_whole:
  assumes inv: "dec_at ch px_end st xs" and lt: "dec_pos st < px_end"
    and len: "Suc (length args) = qoi_op_size b1"
  shows "\<exists>st' ys. (\<forall>f. qoi_decode_op ch px_end b1 (args @ f) st = Inr (st', f))
     \<and> dec_at ch px_end st' (xs @ ys)
     \<and> length ys = min (qoi_op_pixels b1 * unat ch) (unat px_end - length xs)"
proof -
  obtain r g b a where px: "dec_px st = (r, g, b, a)"
    by (cases "dec_px st") auto
  have emit: "\<exists>st' ys. (\<forall>f. qoi_emit ch f (st\<lparr>dec_px := p\<rparr>) = Inr (st', f))
     \<and> dec_at ch px_end st' (xs @ ys)
     \<and> length ys = min (1 * unat ch) (unat px_end - length xs)" for p
  proof -
    from qoi_emit_px_all [OF inv lt, of p] obtain st' ys where
      e: "\<forall>f. qoi_emit ch f (st\<lparr>dec_px := p\<rparr>) = Inr (st', f)"
      and inv': "dec_at ch px_end st' (xs @ ys)" and l: "length ys = unat ch"
      by blast
    from dec_at_length [OF inv'] l have "length ys = min (1 * unat ch) (unat px_end - length xs)"
      by simp
    with e inv' show ?thesis by blast
  qed
  have same: "st\<lparr>dec_px := (r, g, b, a)\<rparr> = st" by (simp add: px [symmetric])
  consider (rgb) "b1 = QOI_OP_RGB"
    | (rgba) "b1 \<noteq> QOI_OP_RGB" "b1 = QOI_OP_RGBA"
    | (luma) "b1 \<noteq> QOI_OP_RGB" "b1 \<noteq> QOI_OP_RGBA" "b1 AND QOI_MASK_2 = QOI_OP_LUMA"
    | (run) "b1 \<noteq> QOI_OP_RGB" "b1 \<noteq> QOI_OP_RGBA" "b1 AND QOI_MASK_2 = QOI_OP_RUN"
    | (short) "b1 \<noteq> QOI_OP_RGB" "b1 \<noteq> QOI_OP_RGBA" "b1 AND QOI_MASK_2 \<noteq> QOI_OP_LUMA"
        "b1 AND QOI_MASK_2 \<noteq> QOI_OP_RUN"
    by blast
  then show ?thesis
  proof cases
    case rgb
    with len have l: "length args = 3" by (simp add: qoi_op_size_def)
    have one: "qoi_op_pixels b1 = 1" using rgb by (simp add: qoi_op_pixels_def)
    have "qoi_decode_op ch px_end b1 (args @ f) st
        = qoi_emit ch f (st\<lparr>dec_px := (args ! 0, args ! 1, args ! 2, a)\<rparr>)" for f
      using rgb by (simp add: qoi_decode_op_def px read_bytes_append [OF l])
    with emit [of "(args ! 0, args ! 1, args ! 2, a)"] show ?thesis
      unfolding one by simp
  next
    case rgba
    with len have l: "length args = 4" by (simp add: qoi_op_size_def)
    have one: "qoi_op_pixels b1 = 1" using rgba by (simp add: qoi_op_pixels_def)
    have "qoi_decode_op ch px_end b1 (args @ f) st
        = qoi_emit ch f (st\<lparr>dec_px := (args ! 0, args ! 1, args ! 2, args ! 3)\<rparr>)" for f
      using rgba by (simp add: qoi_decode_op_def px read_bytes_append [OF l])
    with emit [of "(args ! 0, args ! 1, args ! 2, args ! 3)"] show ?thesis
      unfolding one by simp
  next
    case luma
    with len have "length args = 1" by (simp add: qoi_op_size_def)
    then obtain b2 where args: "args = [b2]" by (cases args) auto
    have one: "qoi_op_pixels b1 = 1"
      using luma by (simp add: qoi_op_pixels_def QOI_OP_LUMA_def QOI_OP_RUN_def)
    have tags: "b1 AND QOI_MASK_2 \<noteq> QOI_OP_INDEX" "b1 AND QOI_MASK_2 \<noteq> QOI_OP_DIFF"
      using luma(3) by (simp_all add: QOI_OP_LUMA_def QOI_OP_INDEX_def QOI_OP_DIFF_def)
    define p where "p = (r + ((b1 AND 0x3f) - 32 - 8 + (drop_bit 4 b2 AND 0x0f)),
      g + ((b1 AND 0x3f) - 32), b + ((b1 AND 0x3f) - 32 - 8 + (b2 AND 0x0f)), a)"
    have "qoi_decode_op ch px_end b1 (args @ f) st = qoi_emit ch f (st\<lparr>dec_px := p\<rparr>)" for f
      using luma tags by (simp add: qoi_decode_op_def px args Let_def p_def)
    with emit [of p] show ?thesis
      unfolding one by simp
  next
    case run
    with len have args: "args = []" by (simp add: qoi_op_size_def QOI_OP_LUMA_def QOI_OP_RUN_def)
    have n: "qoi_op_pixels b1 = unat (b1 AND 0x3f) + 1"
      using run by (simp add: qoi_op_pixels_def)
    from qoi_run_loop_count [OF inv, of "unat (b1 AND 0x3f) + 1"] obtain st' ys where
      "qoi_run_loop ch px_end (unat (b1 AND 0x3f) + 1) st = Inr st'"
      "dec_at ch px_end st' (xs @ ys)"
      "length ys = min ((unat (b1 AND 0x3f) + 1) * unat ch) (unat px_end - length xs)"
      by blast
    then show ?thesis
      unfolding n args
      by (intro exI [of _ st'] exI [of _ ys])
        (simp add: qoi_decode_op_run [OF run(3,1,2)] del: qoi_run_loop.simps)
  next
    case short
    with len have args: "args = []" by (simp add: qoi_op_size_def)
    have one: "qoi_op_pixels b1 = 1" using short by (simp add: qoi_op_pixels_def)
    have "\<exists>p. \<forall>f. qoi_decode_op ch px_end b1 (args @ f) st = qoi_emit ch f (st\<lparr>dec_px := p\<rparr>)"
    proof (cases "b1 AND QOI_MASK_2 = QOI_OP_INDEX")
      case True
      with short have
        "qoi_decode_op ch px_end b1 (args @ f) st
          = qoi_emit ch f (st\<lparr>dec_px := dec_index st ! unat b1\<rparr>)" for f
        by (simp add: qoi_decode_op_def px args)
      then show ?thesis by blast
    next
      case False
      note not_index = this
      show ?thesis
      proof (cases "b1 AND QOI_MASK_2 = QOI_OP_DIFF")
        case True
        with short not_index have
          "qoi_decode_op ch px_end b1 (args @ f) st = qoi_emit ch f (st\<lparr>dec_px :=
            (r + (drop_bit 4 b1 AND 0x03) - 2, g + (drop_bit 2 b1 AND 0x03) - 2,
             b + (b1 AND 0x03) - 2, a)\<rparr>)" for f
          by (simp add: qoi_decode_op_def px args)
        then show ?thesis by blast
      next
        case False
        with short not_index have
          "qoi_decode_op ch px_end b1 (args @ f) st = qoi_emit ch f (st\<lparr>dec_px := (r, g, b, a)\<rparr>)" for f
          by (simp add: qoi_decode_op_def px args same)
        then show ?thesis by blast
      qed
    qed
    then obtain p where
      "\<And>f. qoi_decode_op ch px_end b1 (args @ f) st = qoi_emit ch f (st\<lparr>dec_px := p\<rparr>)"
      by blast
    with emit [of p] show ?thesis
      unfolding one by simp
  qed
qed

lemma qoi_decode_loop_ops:
  assumes wf: "qoi_ops_wf ops"
    and inv: "dec_at ch px_end st xs"
    and need: "length xs + qoi_ops_pixels (butlast ops) * unat ch < unat px_end"
    and enough: "unat px_end \<le> length xs + qoi_ops_pixels ops * unat ch"
  shows "\<exists>st'. (\<forall>f. qoi_decode_loop ch px_end (concat ops @ f) st = Inr (st', f))
     \<and> length (dec_pixels st') = unat px_end"
  using assms
proof (induction ops arbitrary: st xs)
  case Nil
  then show ?case by (simp add: qoi_ops_pixels_def)
next
  case (Cons op ops)
  from Cons.prems(1) obtain b1 args where op: "op = b1 # args"
    and len: "Suc (length args) = qoi_op_size b1" and wf': "qoi_ops_wf ops"
    by (cases op) (auto simp: qoi_ops_wf_def)
  from Cons.prems(3) have "length xs < unat px_end" by simp
  with dec_at_pos_less [OF Cons.prems(2)] have lt: "dec_pos st < px_end" by simp
  from qoi_decode_op_whole [OF Cons.prems(2) lt len] obtain st1 ys where
    dec: "\<And>f. qoi_decode_op ch px_end b1 (args @ f) st = Inr (st1, f)"
    and inv1: "dec_at ch px_end st1 (xs @ ys)"
    and ys: "length ys = min (qoi_op_pixels b1 * unat ch) (unat px_end - length xs)"
    by blast
  have step: "qoi_decode_loop ch px_end (concat (op # ops) @ f) st
      = qoi_decode_loop ch px_end (concat ops @ f) st1" for f
    using dec [of "concat ops @ f"] by (simp add: op qoi_decode_loop_step [OF lt])
  show ?case
  proof (cases "ops = []")
    case True
    with Cons.prems(4) have "unat px_end \<le> length xs + qoi_op_pixels b1 * unat ch"
      by (simp add: qoi_ops_pixels_def op)
    with ys \<open>length xs < unat px_end\<close> have "length (xs @ ys) = unat px_end" by simp
    with dec_at_pos_less [OF inv1] have "\<not> dec_pos st1 < px_end" by simp
    then have "qoi_decode_loop ch px_end (concat (op # ops) @ f) st = Inr (st1, f)" for f
      unfolding step using True by (simp add: qoi_decode_loop_done)
    moreover from inv1 have "length (dec_pixels st1) = unat px_end" by (simp add: dec_at_def)
    ultimately show ?thesis by blast
  next
    case False
    then have "butlast (op # ops) = op # butlast ops" by simp
    with Cons.prems(3) have
      n: "length xs + (qoi_op_pixels b1 + qoi_ops_pixels (butlast ops)) * unat ch < unat px_end"
      by (simp add: qoi_ops_pixels_def op)
    then have "length xs + qoi_op_pixels b1 * unat ch < unat px_end"
      by (simp add: add_mult_distrib)
    with ys have ys': "length ys = qoi_op_pixels b1 * unat ch" by simp
    have need': "length (xs @ ys) + qoi_ops_pixels (butlast ops) * unat ch < unat px_end"
      using n by (simp add: ys' add_mult_distrib)
    have enough': "unat px_end \<le> length (xs @ ys) + qoi_ops_pixels ops * unat ch"
      using Cons.prems(4) by (simp add: ys' qoi_ops_pixels_def op add_mult_distrib)
    from Cons.IH [OF wf' inv1 need' enough'] obtain st' where
      "\<And>f. qoi_decode_loop ch px_end (concat ops @ f) st1 = Inr (st', f)"
      "length (dec_pixels st') = unat px_end"
      by blast
    then show ?thesis unfolding step by blast
  qed
qed

lemma qoi_read_ops:
  fixes w h :: "32 word" and chans cs :: byte
  assumes heap: "malloc_spec malloc"
    and dims: "w \<noteq> 0" "w \<le> 0x7fffffff" "h \<noteq> 0" "h \<le> 0x7fffffff"
    and chans: "chans = 3 \<or> chans = 4"
    and ceiling: "image_check_max_pixels c w h"
    and room: "malloc (word_of_nat (unat w * unat h * unat chans)) \<noteq> None"
    and wf: "qoi_ops_wf ops"
    and need: "qoi_ops_pixels (butlast ops) < unat w * unat h"
    and enough: "unat w * unat h \<le> qoi_ops_pixels ops"
  shows "\<exists>buf. length buf = unat w * unat h * unat chans
     \<and> (\<forall>rest. qoi_read_stream malloc c
            (qoi_write32be QOI_MAGIC @ qoi_write32be w @ qoi_write32be h @ [chans, cs]
               @ concat ops @ rest)
          = Inr (\<lparr>pixels = Some buf, width = w, height = h, channels = ucast chans\<rparr>, rest))"
proof -
  define hdr where "hdr = qoi_write32be QOI_MAGIC @ qoi_write32be w @ qoi_write32be h @ [chans, cs]"
  have hdr: "qoi_read32be hdr = QOI_MAGIC" "qoi_read32be (drop 4 hdr) = w"
    "qoi_read32be (drop 8 hdr) = h" "hdr ! 12 = chans"
    by (simp_all add: hdr_def qoi_read32be_write32be nth_append)
  have rd: "read_bytes QOI_HEADER_SIZE (hdr @ f) = Some (hdr, f)" for f
    by (rule read_bytes_append) (simp add: QOI_HEADER_SIZE_def hdr_def)
  define chw :: size_t where "chw = size_of_int (ucast chans)"
  have chw: "chw = 3 \<or> chw = 4" and uchw: "unat chw = unat chans"
    and cc: "(ucast chans :: c_int) = 3 \<or> (ucast chans :: c_int) = 4"
    using chans by (auto simp: chw_def size_of_int_def)
  have uw: "unat w \<le> 2147483647" "unat h \<le> 2147483647"
    using dims(2,4) by (simp_all add: word_le_nat_alt)
  define pc :: size_t where "pc = ucast w * ucast h"
  have ucast: "unat (ucast w :: size_t) = unat w" "unat (ucast h :: size_t) = unat h"
  proof -
    have "unat x < 2 ^ 64" for x :: "32 word"
      using unsigned_less [of x, where 'a = nat] by simp
    then have "take_bit 64 (unat x) = unat x" for x :: "32 word"
      by (simp only: take_bit_nat_eq_self)
    then show "unat (ucast w :: size_t) = unat w" "unat (ucast h :: size_t) = unat h"
      by (simp_all add: unsigned_ucast_eq)
  qed
  have "unat w * unat h \<le> 2147483647 * 2147483647" using uw by (rule mult_le_mono)
  then have wh: "unat w * unat h \<le> 4611686014132420609" by simp
  then have "unat (ucast w :: size_t) * unat (ucast h :: size_t) < 2 ^ 64"
    unfolding ucast by simp
  then have pc: "checked_mul_size (ucast w) (ucast h :: size_t) = Some pc"
    by (simp add: checked_mul_size_eq pc_def)
  have upc: "unat pc = unat w * unat h"
    using checked_mul_size_SomeD [OF pc, THEN conjunct2] by (simp add: ucast)
  have "unat chw \<le> 4" using chw by auto
  with wh have "unat w * unat h * unat chw \<le> 4611686014132420609 * 4" by (rule mult_le_mono)
  then have fits: "unat pc * unat chw < 2 ^ 64" unfolding upc by simp
  then have pb: "checked_mul_size pc chw = Some (pc * chw)"
    by (simp add: checked_mul_size_eq)
  have upb: "unat (pc * chw) = unat w * unat h * unat chans"
    using checked_mul_size_SomeD [OF pb, THEN conjunct2] by (simp add: upc uchw)
  have "word_of_nat (unat w * unat h * unat chans) = pc * chw"
    using upb by (metis of_nat_unat ucast_id)
  with room obtain buf0 where buf0: "malloc (pc * chw) = Some buf0" by auto
  with heap have len0: "length buf0 = unat (pc * chw)" by (auto simp: malloc_spec_def)
  let ?D = "\<lparr>dec_index = replicate 64 (0, 0, 0, 0), dec_px = (0, 0, 0, 255), dec_pos = 0,
      dec_pixels = buf0\<rparr>"
  have inv: "dec_at chw (pc * chw) ?D []"
    using chw upb len0 by (intro dec_at_init) (simp_all add: upc uchw)
  have pos: "0 < unat chw" using chw by auto
  have need': "length ([] :: byte list) + qoi_ops_pixels (butlast ops) * unat chw < unat (pc * chw)"
    using need pos by (simp add: upb uchw)
  have enough': "unat (pc * chw) \<le> length ([] :: byte list) + qoi_ops_pixels ops * unat chw"
    using enough by (simp add: upb uchw)
  from qoi_decode_loop_ops [OF wf inv need' enough'] obtain st' where
    loop: "\<And>f. qoi_decode_loop chw (pc * chw) (concat ops @ f) ?D = Inr (st', f)"
    and len: "length (dec_pixels st') = unat (pc * chw)"
    by blast
  have lim: "\<not> (w = 0 \<or> h = 0 \<or> w > 0x7fffffff \<or> h > 0x7fffffff)"
    using dims by (simp add: not_less)
  have "qoi_read_stream malloc c (hdr @ concat ops @ rest)
      = Inr (\<lparr>pixels = Some (dec_pixels st'), width = w, height = h, channels = ucast chans\<rparr>,
             rest)" for rest
    unfolding qoi_read_stream_def rd option.case prod.case Let_def hdr
    using lim cc pc pb [unfolded chw_def] ceiling buf0 [unfolded chw_def]
      loop [of rest, unfolded chw_def]
    by simp
  then show ?thesis
    using len unfolding upb hdr_def by (intro exI [of _ "dec_pixels st'"]) simp
qed

text \<open>
  Claim C10. \<open>qoi_read\<close> neither reads nor checks the end marker. Take a stream that
  starts with a valid header (the magic, a width and a height between 1 and \<open>INT_MAX\<close>,
  3 or 4 channels, any colorspace byte) followed by whole operations that produce the
  \<open>width * height\<close> pixels of the image, the last operation being needed for that (a
  final run may overshoot), and then by any bytes \<open>rest\<close> at all. With the pixel
  ceiling respected and the buffer granted, \<open>qoi_read\<close> succeeds on it, whether \<open>rest\<close>
  is the end marker, a part of it, other bytes or nothing; it stops reading right
  after the last operation, leaving exactly \<open>rest\<close> unread; and the image it returns is
  the same for every \<open>rest\<close>.
\<close>

theorem qoi_read_ignores_end_marker:
  fixes w h :: "32 word" and chans cs :: byte
  assumes "malloc_spec malloc"
    and "w \<noteq> 0" "w \<le> 0x7fffffff" "h \<noteq> 0" "h \<le> 0x7fffffff"
    and "chans = 3 \<or> chans = 4"
    and "image_check_max_pixels c w h"
    and "malloc (word_of_nat (unat w * unat h * unat chans)) \<noteq> None"
    and "qoi_ops_wf ops"
    and "qoi_ops_pixels (butlast ops) < unat w * unat h"
    and "unat w * unat h \<le> qoi_ops_pixels ops"
  shows "\<exists>buf. length buf = unat w * unat h * unat chans
     \<and> (\<forall>rest.
          qoi_read_stream malloc c
            (qoi_write32be QOI_MAGIC @ qoi_write32be w @ qoi_write32be h @ [chans, cs]
               @ concat ops @ rest)
          = Inr (\<lparr>pixels = Some buf, width = w, height = h, channels = ucast chans\<rparr>, rest)
        \<and> qoi_read malloc c
            (qoi_write32be QOI_MAGIC @ qoi_write32be w @ qoi_write32be h @ [chans, cs]
               @ concat ops @ rest)
          = Inr \<lparr>pixels = Some buf, width = w, height = h, channels = ucast chans\<rparr>)"
proof -
  from qoi_read_ops [OF assms, of cs] obtain buf where
    "length buf = unat w * unat h * unat chans"
    "\<And>rest. qoi_read_stream malloc c
        (qoi_write32be QOI_MAGIC @ qoi_write32be w @ qoi_write32be h @ [chans, cs]
           @ concat ops @ rest)
      = Inr (\<lparr>pixels = Some buf, width = w, height = h, channels = ucast chans\<rparr>, rest)"
    by blast
  then show ?thesis
    by (intro exI [of _ buf]) (simp add: qoi_read_def)
qed

theorem qoi_read_ignores_end_marker_witness:
  "qoi_ops_wf [[0xfe, 1, 2, 3], [0xc1]]
   \<and> qoi_ops_pixels (butlast [[0xfe, 1, 2, 3], [0xc1]]) = 1
   \<and> qoi_ops_pixels [[0xfe, 1, 2, 3], [0xc1]] = 3
   \<and> qoi_read small_heap 0
        [0x71, 0x6f, 0x69, 0x66, 0, 0, 0, 2, 0, 0, 0, 1, 3, 1, 0xfe, 1, 2, 3, 0xc1,
         0, 0, 0, 0, 0, 0, 0, 1]
      = Inr \<lparr>pixels = Some [1, 2, 3, 1, 2, 3], width = 2, height = 1, channels = 3\<rparr>
   \<and> qoi_read small_heap 0
        [0x71, 0x6f, 0x69, 0x66, 0, 0, 0, 2, 0, 0, 0, 1, 3, 1, 0xfe, 1, 2, 3, 0xc1]
      = Inr \<lparr>pixels = Some [1, 2, 3, 1, 2, 3], width = 2, height = 1, channels = 3\<rparr>
   \<and> qoi_read small_heap 0
        [0x71, 0x6f, 0x69, 0x66, 0, 0, 0, 2, 0, 0, 0, 1, 3, 1, 0xfe, 1, 2, 3, 0xc1,
         0, 0, 0]
      = Inr \<lparr>pixels = Some [1, 2, 3, 1, 2, 3], width = 2, height = 1, channels = 3\<rparr>
   \<and> qoi_read_stream small_heap 0
        [0x71, 0x6f, 0x69, 0x66, 0, 0, 0, 2, 0, 0, 0, 1, 3, 1, 0xfe, 1, 2, 3, 0xc1,
         0xff, 9, 9, 9, 9, 0, 0, 7]
      = Inr (\<lparr>pixels = Some [1, 2, 3, 1, 2, 3], width = 2, height = 1, channels = 3\<rparr>,
             [0xff, 9, 9, 9, 9, 0, 0, 7])"
proof -
  let ?ops = "[[0xfe, 1, 2, 3], [0xc1 :: byte]]"
  let ?img = "\<lparr>pixels = Some [1, 2, 3, 1, 2, 3 :: byte], width = 2, height = 1, channels = 3\<rparr>"
  have hd: "qoi_write32be QOI_MAGIC @ qoi_write32be 2 @ qoi_write32be 1 @ [3, 1] @ concat ?ops @ rest
      = [0x71, 0x6f, 0x69, 0x66, 0, 0, 0, 2, 0, 0, 0, 1, 3, 1, 0xfe, 1, 2, 3, 0xc1] @ rest" for rest
    by (simp add: qoi_write32be_def QOI_MAGIC_def)
  have wf: "qoi_ops_wf ?ops"
    by (simp add: qoi_ops_wf_def qoi_op_size_def QOI_OP_RGB_def QOI_OP_RGBA_def QOI_OP_LUMA_def
        QOI_MASK_2_def)
  have px: "qoi_ops_pixels (butlast ?ops) = 1" "qoi_ops_pixels ?ops = 3"
    by (simp_all add: qoi_ops_pixels_def qoi_op_pixels_def QOI_OP_RGB_def QOI_OP_RGBA_def
        QOI_OP_RUN_def QOI_MASK_2_def)
  have c: "image_check_max_pixels 0 (2 :: c_int) 1"
    by (simp add: image_check_max_pixels_def checked_mul_size_def SIZE_MAX_def size_of_int_def
        word_le_nat_alt unat_div)
  have r: "small_heap (word_of_nat (unat (2 :: 32 word) * unat (1 :: 32 word) * unat (3 :: byte)))
      \<noteq> None"
    by (simp add: small_heap_def)
  from qoi_read_ignores_end_marker [where malloc = small_heap and w = 2 and h = 1 and chans = 3
      and c = 0 and ops = ?ops and cs = 1, OF small_heap_spec _ _ _ _ _ c r wf]
  obtain buf where
    all: "\<And>rest. qoi_read_stream small_heap 0
          ([0x71, 0x6f, 0x69, 0x66, 0, 0, 0, 2, 0, 0, 0, 1, 3, 1, 0xfe, 1, 2, 3, 0xc1] @ rest)
        = Inr (\<lparr>pixels = Some buf, width = 2, height = 1, channels = 3\<rparr>, rest)"
    unfolding hd px by auto
  have "qoi_read_stream small_heap 0
      ([0x71, 0x6f, 0x69, 0x66, 0, 0, 0, 2, 0, 0, 0, 1, 3, 1, 0xfe, 1, 2, 3, 0xc1] @ [])
    = Inr (?img, [])"
    by code_simp
  with all [of "[]"] have buf: "buf = [1, 2, 3, 1, 2, 3]" by simp
  show ?thesis
    using wf px all [of "[0, 0, 0, 0, 0, 0, 0, 1]"] all [of "[]"] all [of "[0, 0, 0]"]
      all [of "[0xff, 9, 9, 9, 9, 0, 0, 7]"]
    unfolding buf by (simp add: qoi_read_def)
qed

section \<open>Properties of the BMP codec\<close>

subsection \<open>Rejected headers\<close>

lemma le16_bytes_le16: "ucast (le16 p) = p ! 0 \<and> ucast (drop_bit 8 (le16 p)) = p ! 1"
proof -
  have "bit (ucast (le16 p) :: byte) n = bit (p ! 0) n" for n
    by (auto simp: le16_def bit_simps dest: bit_imp_le_length)
  moreover have "bit (ucast (drop_bit 8 (le16 p)) :: byte) n = bit (p ! 1) n" for n
    by (auto simp: le16_def bit_simps dest: bit_imp_le_length)
  ultimately show ?thesis by (simp add: bit_eq_iff)
qed

lemma le16_BM: "le16 p = 0x4D42 \<Longrightarrow> p ! 0 = 0x42 \<and> p ! 1 = 0x4D"
  using le16_bytes_le16 [of p] by simp

lemma INT32_MIN_sint: "x = INT32_MIN \<longleftrightarrow> sint x = - 2147483648"
proof
  assume "x = INT32_MIN"
  then show "sint x = - 2147483648" by (simp add: INT32_MIN_def)
next
  assume "sint x = - 2147483648"
  then have "sint x = sint INT32_MIN" by (simp add: INT32_MIN_def)
  then show "x = INT32_MIN" by (simp only: signed_word_eqI)
qed

text \<open>
  Claim C6. \<open>bmp_read\<close> returns false, and no image, on every input that is shorter
  than the two headers, whose first two bytes are not \<open>B\<close> and \<open>M\<close>, whose compression
  field is not 0, whose bit depth is neither 24 nor 32, whose width is at most 0, or whose
  height is 0 or the least \<open>int32_t\<close>.
\<close>

theorem bmp_read_rejects:
  assumes "ih = bmp_info_header_of (take 40 (drop 14 file))"
    and "length file < 54 \<or> take 2 file \<noteq> [0x42, 0x4D]
       \<or> ih_compression ih \<noteq> 0 \<or> (ih_bit_count ih \<noteq> 24 \<and> ih_bit_count ih \<noteq> 32)
       \<or> sint (ih_width ih) \<le> 0 \<or> sint (ih_height ih) = 0
       \<or> sint (ih_height ih) = - 2147483648"
  shows "bmp_read malloc c file = Inl Reject"
proof (cases "length file < 54")
  case True
  then show ?thesis
    by (auto simp: bmp_read_def READ_FILE_def)
next
  case False
  then have len: "length (take 14 file) = 14" "length (take 40 (drop 14 file)) = 40" by simp_all
  define fh where "fh = bmp_file_header_of (take 14 file)"
  have magic: "take 2 file = [0x42, 0x4D]" if "fh_type fh = 0x4D42"
  proof -
    from that have "le16 (take 14 file) = 0x4D42" by (simp add: fh_def bmp_file_header_of_def)
    from le16_BM [OF this] have "file ! 0 = 0x42" "file ! 1 = 0x4D" by simp_all
    moreover have "take 2 file = [file ! 0, file ! 1]"
      using False by (simp add: list_eq_iff_nth_eq less_Suc_eq numeral_2_eq_2)
    ultimately show ?thesis by simp
  qed
  have "fh_type fh \<noteq> 0x4D42 \<or> ih_compression ih \<noteq> 0
      \<or> (ih_bit_count ih \<noteq> 24 \<and> ih_bit_count ih \<noteq> 32)
      \<or> ih_width ih \<le>s 0 \<or> INT_MAX < sint (ih_width ih) \<or> ih_height ih = 0
      \<or> ih_height ih = INT32_MIN"
    using assms(2) False magic
    by (auto simp: word_sle_eq INT32_MIN_sint signed_eq_0_iff)
  then show ?thesis
    unfolding bmp_read_def READ_FILE_def prod.case len Let_def fh_def [symmetric]
      assms(1) [symmetric]
    by auto
qed

theorem bmp_read_rejects_witness:
  "bmp_read small_heap 0
     [0x42, 0x4D, 58, 0, 0, 0, 0, 0, 0, 0, 54, 0, 0, 0,
      40, 0, 0, 0, 1, 0, 0, 0, 1, 0, 0, 0, 1, 0, 8, 0, 0, 0, 0, 0, 4, 0, 0, 0,
      0, 0, 0, 0, 0, 0, 0, 0, 0, 0, 0, 0, 0, 0, 0, 0,
      1, 2, 3, 0] = Inl Reject"
proof -
  let ?file = "[0x42, 0x4D, 58, 0, 0, 0, 0, 0, 0, 0, 54, 0, 0, 0,
      40, 0, 0, 0, 1, 0, 0, 0, 1, 0, 0, 0, 1, 0, 8, 0, 0, 0, 0, 0, 4, 0, 0, 0,
      0, 0, 0, 0, 0, 0, 0, 0, 0, 0, 0, 0, 0, 0, 0, 0,
      1, 2, 3, 0 :: byte]"
  have "ih_bit_count (bmp_info_header_of (take 40 (drop 14 ?file))) = 8"
    by (simp add: bmp_info_header_of_def le16_def)
  then show ?thesis
    by (intro bmp_read_rejects [OF refl]) simp
qed

subsection \<open>The BMP decoder inverts the encoder\<close>

lemma list_update3:
  assumes "n + 3 \<le> length xs"
  shows "xs[n := a, n + 1 := b, n + 2 := c] = take n xs @ [a, b, c] @ drop (n + 3) xs"
proof (rule nth_equalityI)
  show "length (xs[n := a, n + 1 := b, n + 2 := c]) = length (take n xs @ [a, b, c] @ drop (n + 3) xs)"
    using assms by simp
next
  fix i
  assume "i < length (xs[n := a, n + 1 := b, n + 2 := c])"
  then have i: "i < length xs" by simp
  consider "i < n" | "i = n" | "i = n + 1" | "i = n + 2" | "n + 3 \<le> i" by linarith
  then show "xs[n := a, n + 1 := b, n + 2 := c] ! i = (take n xs @ [a, b, c] @ drop (n + 3) xs) ! i"
  proof cases
    case 5
    then have "i - n = Suc (Suc (Suc (i - (n + 3))))" by simp
    with 5 i assms show ?thesis by (simp add: nth_append)
  qed (use i assms in \<open>simp_all add: nth_append\<close>)
qed

lemma length_concat_map3:
  assumes "\<And>x. length (g x) = 3"
  shows "length (concat (map g [a..<b])) = (b - a) * 3"
  using assms by (simp add: length_concat sum_list_triv comp_def)

lemma bmp_pack_row_eq:
  assumes "x \<le> w" "w * 3 \<le> length row" "yoff + w * ch \<le> length buf" "ch = 3 \<or> ch = 4"
    and "int ((w - 1) * ch + 2) \<le> INT_MAX"
  shows "bmp_pack_row w ch buf yoff x row =
     Inr (take (x * 3) row @ concat (map (\<lambda>j. bgr_at buf (yoff + j * ch)) [x..<w]) @ drop (w * 3) row)"
  using assms(1,2)
proof (induction "w - x" arbitrary: x row)
  case 0
  then show ?case by (subst bmp_pack_row.simps) simp
next
  case (Suc k)
  then have x: "x < w" by simp
  then have "x * ch \<le> (w - 1) * ch" "x * 3 \<le> x * ch" "Suc x * 3 \<le> w * 3" "Suc x * ch \<le> w * ch"
    using assms(4) by (auto intro: mult_le_mono1)
  then have safe: "\<not> INT_MAX < int (x * 3 + 2)" "\<not> INT_MAX < int (x * ch + 2)"
    "\<not> length row \<le> x * 3 + 2" "\<not> length buf \<le> yoff + x * ch + 2"
    using assms(3,4,5) Suc.prems(2) by auto
  let ?row = "row[x * 3 := buf ! (yoff + x * ch + 2), x * 3 + 1 := buf ! (yoff + x * ch + 1),
      x * 3 + 2 := buf ! (yoff + x * ch)]"
  have px: "bmp_pack_px ch buf yoff x row = Inr ?row"
    using safe by (simp add: bmp_pack_px_def)
  have "x * 3 + 3 \<le> length row" using safe(3) by simp
  then have "?row = take (x * 3) row
      @ [buf ! (yoff + x * ch + 2), buf ! (yoff + x * ch + 1), buf ! (yoff + x * ch)]
      @ drop (x * 3 + 3) row"
    by (rule list_update3)
  then have row': "?row = take (x * 3) row @ bgr_at buf (yoff + x * ch) @ drop (x * 3 + 3) row"
    by (simp only: bgr_at_def)
  have len: "length ?row = length row" by simp
  have "bmp_pack_row w ch buf yoff x row = bmp_pack_row w ch buf yoff (Suc x) ?row"
    using x px by (subst bmp_pack_row.simps) simp
  also have "\<dots> = Inr (take (Suc x * 3) ?row
      @ concat (map (\<lambda>j. bgr_at buf (yoff + j * ch)) [Suc x..<w]) @ drop (w * 3) ?row)"
    using Suc.hyps(2) x Suc.prems(2) by (intro Suc.hyps(1)) simp_all
  also have "take (Suc x * 3) ?row = take (x * 3) row @ bgr_at buf (yoff + x * ch)"
    unfolding row' using safe(3) by (simp add: bgr_at_def)
  also have "drop (w * 3) ?row = drop (w * 3) row"
    using \<open>Suc x * 3 \<le> w * 3\<close> by (simp add: drop_update_cancel)
  finally show ?case
    using x by (simp add: upt_conv_Cons)
qed

lemma bmp_unpack_row_eq:
  assumes "x \<le> w" "w * 3 \<le> length row" "dst + w * 3 \<le> length pix"
    and "int ((w - 1) * 3 + 2) \<le> INT_MAX"
  shows "bmp_unpack_row w 3 3 row dst x pix =
     Inr (take (dst + x * 3) pix @ concat (map (\<lambda>j. bgr_at row (j * 3)) [x..<w])
          @ drop (dst + w * 3) pix)"
  using assms(1,3)
proof (induction "w - x" arbitrary: x pix)
  case 0
  then show ?case by (subst bmp_unpack_row.simps) simp
next
  case (Suc k)
  then have x: "x < w" by simp
  then have le: "x * 3 \<le> (w - 1) * 3" "Suc x * 3 \<le> w * 3" by simp_all
  then have safe: "\<not> INT_MAX < int (x * 3 + 2)"
    "\<not> length row \<le> x * 3 + 2" "\<not> length pix \<le> dst + x * 3 + 2"
    using assms(2,4) Suc.prems(2) by auto
  let ?pix = "pix[dst + x * 3 := row ! (x * 3 + 2), dst + x * 3 + 1 := row ! (x * 3 + 1),
      dst + x * 3 + 2 := row ! (x * 3)]"
  have px: "bmp_unpack_px 3 3 row dst x pix = Inr ?pix"
    using safe by (simp add: bmp_unpack_px_def)
  have "dst + x * 3 + 3 \<le> length pix" using safe(3) by simp
  then have "?pix = take (dst + x * 3) pix
      @ [row ! (x * 3 + 2), row ! (x * 3 + 1), row ! (x * 3)] @ drop (dst + x * 3 + 3) pix"
    by (rule list_update3)
  then have pix': "?pix = take (dst + x * 3) pix @ bgr_at row (x * 3) @ drop (dst + x * 3 + 3) pix"
    by (simp only: bgr_at_def)
  have "bmp_unpack_row w 3 3 row dst x pix = bmp_unpack_row w 3 3 row dst (Suc x) ?pix"
    using x px by (subst bmp_unpack_row.simps) simp
  also have "\<dots> = Inr (take (dst + Suc x * 3) ?pix
      @ concat (map (\<lambda>j. bgr_at row (j * 3)) [Suc x..<w]) @ drop (dst + w * 3) ?pix)"
    using Suc.hyps(2) x Suc.prems(2) by (intro Suc.hyps(1)) simp_all
  also have "take (dst + Suc x * 3) ?pix = take (dst + x * 3) pix @ bgr_at row (x * 3)"
    unfolding pix' using safe(3) by (simp add: bgr_at_def)
  also have "drop (dst + w * 3) ?pix = drop (dst + w * 3) pix"
    using le(2) by (simp add: drop_update_cancel)
  finally show ?case
    using x by (simp add: upt_conv_Cons)
qed

lemma nth_concat_map3:
  assumes "\<And>x. length (g x) = 3" "j < w" "k < 3"
  shows "(concat (map g [0..<w]) @ pad) ! (j * 3 + k) = g j ! k"
  using assms(2)
proof (induction w arbitrary: pad)
  case 0
  then show ?case by simp
next
  case (Suc w)
  have len: "length (concat (map g [0..<w])) = w * 3"
    using length_concat_map3 [of g 0 w] assms(1) by simp
  show ?case
  proof (cases "j < w")
    case True
    from Suc.IH [OF True, of "g w @ pad"] show ?thesis by simp
  next
    case False
    with Suc.prems have "j = w" by simp
    then show ?thesis using len assms(1,3) by (simp add: nth_append)
  qed
qed

lemma bgr_at_packed:
  assumes "j < w"
  shows "bgr_at (concat (map (\<lambda>j. bgr_at buf (yoff + j * ch)) [0..<w]) @ pad) (j * 3)
     = rgb_at buf (yoff + j * ch)"
proof -
  have len: "length (bgr_at buf (yoff + x * ch)) = 3" for x by (simp add: bgr_at_def)
  have "(concat (map (\<lambda>j. bgr_at buf (yoff + j * ch)) [0..<w]) @ pad) ! (j * 3 + k)
      = bgr_at buf (yoff + j * ch) ! k" if "k < 3" for k
    using len assms that by (rule nth_concat_map3)
  from this [of 0] this [of 1] this [of 2] show ?thesis
    by (simp add: bgr_at_def rgb_at_def)
qed

lemma length_bmp_row [simp]: "length (bmp_row buf w ch y) = w * 3"
  unfolding bmp_row_def using length_concat_map3 [of "\<lambda>j. bgr_at buf (y * (w * ch) + j * ch)" 0 w]
  by (simp add: bgr_at_def)

lemma bmp_write_rows_eq:
  assumes "w * 3 \<le> length row" "k * (w * ch) \<le> length buf" "ch = 3 \<or> ch = 4"
    and "int ((w - 1) * ch + 2) \<le> INT_MAX"
  shows "bmp_write_rows w ch (w * ch) buf k row out =
     Inr (out @ concat (map (\<lambda>y. bmp_row buf w ch y @ drop (w * 3) row) (rev [0..<k])))"
  using assms(1,2)
proof (induction k arbitrary: row out)
  case 0
  then show ?case by simp
next
  case (Suc k)
  let ?row = "bmp_row buf w ch k @ drop (w * 3) row"
  have "k * (w * ch) + w * ch \<le> length buf" using Suc.prems(2) by simp
  then have pack: "bmp_pack_row w ch buf (k * (w * ch)) 0 row = Inr ?row"
    using bmp_pack_row_eq [of 0 w row "k * (w * ch)" ch buf] Suc.prems(1) assms(3,4)
    by (simp add: bmp_row_def)
  have "k * (w * ch) \<le> length buf" using Suc.prems(2) by simp
  moreover have "w * 3 \<le> length ?row" by simp
  ultimately have "bmp_write_rows w ch (w * ch) buf k ?row (out @ ?row) =
      Inr ((out @ ?row) @ concat (map (\<lambda>y. bmp_row buf w ch y @ drop (w * 3) ?row) (rev [0..<k])))"
    by (intro Suc.IH)
  moreover have "drop (w * 3) ?row = drop (w * 3) row" by simp
  ultimately show ?case using pack by simp
qed

lemma bmp_pack_row_overflow:
  assumes "x < w" "INT_MAX < int ((w - 1) * ch + 2)"
  shows "bmp_pack_row w ch buf yoff x row = Inl Fault"
  using assms(1)
proof (induction "w - x" arbitrary: x row)
  case 0
  then show ?case by simp
next
  case (Suc k)
  show ?case
  proof (cases "bmp_pack_px ch buf yoff x row")
    case (Inl e)
    then have "e = Fault" by (auto simp: bmp_pack_px_def split: if_splits)
    with Inl Suc.prems show ?thesis by (subst bmp_pack_row.simps) simp
  next
    case (Inr row')
    then have ok: "\<not> INT_MAX < int (x * ch + 2)" by (auto simp: bmp_pack_px_def split: if_splits)
    have "x \<noteq> w - 1" using ok assms(2) by auto
    with Suc.prems have "Suc x < w" by simp
    moreover from this Suc.hyps(2) have "k = w - Suc x" by simp
    ultimately have "bmp_pack_row w ch buf yoff (Suc x) row' = Inl Fault"
      by (intro Suc.hyps(1))
    with Inr Suc.prems show ?thesis by (subst bmp_pack_row.simps) simp
  qed
qed

lemma bmp_write_rows_overflow:
  assumes "0 < w" "0 < k" "INT_MAX < int ((w - 1) * ch + 2)"
  shows "bmp_write_rows w ch srb buf k row out = Inl Fault"
proof -
  from assms(2) obtain k' where "k = Suc k'" by (cases k) auto
  then show ?thesis
    using bmp_pack_row_overflow [OF assms(1,3)] by simp
qed

lemma bmp_read_rows_eq:
  assumes len: "\<And>i. i < h \<Longrightarrow> length (frow i) = R" and "w * 3 \<le> R"
    and "int ((w - 1) * 3 + 2) \<le> INT_MAX"
    and "y \<le> h" "length pix = h * (w * 3)"
  shows "bmp_read_rows False h w 3 3 (w * 3) R y (concat (map frow [y..<h]) @ rest) pix =
     Inr (concat (map (\<lambda>r. concat (map (\<lambda>j. bgr_at (frow (h - 1 - r)) (j * 3)) [0..<w])) [0..<h - y])
          @ drop ((h - y) * (w * 3)) pix)"
  using assms(4,5)
proof (induction "h - y" arbitrary: y pix)
  case 0
  then show ?case by (subst bmp_read_rows.simps) simp
next
  case (Suc k)
  then have y: "y < h" by simp
  define dst_y where "dst_y = h - 1 - y"
  define U where "U r = concat (map (\<lambda>j. bgr_at (frow r) (j * 3)) [0..<w])" for r
  have lenU: "length (U r) = w * 3" for r
    unfolding U_def using length_concat_map3 [of "\<lambda>j. bgr_at (frow r) (j * 3)" 0 w]
    by (simp add: bgr_at_def)
  have hy: "h - y = Suc dst_y" "h - Suc y = dst_y" "h - Suc dst_y = y"
    using y by (simp_all add: dst_y_def)
  have "Suc dst_y * (w * 3) \<le> h * (w * 3)" using y unfolding dst_y_def by (intro mult_le_mono1) simp
  then have room: "dst_y * (w * 3) + w * 3 \<le> length pix" using Suc.prems(2) by simp
  let ?f' = "concat (map frow [Suc y..<h]) @ rest"
  have rd: "READ_FILE R (concat (map frow [y..<h]) @ rest) = (frow y, ?f')"
    using y len [of y] by (simp add: READ_FILE_def upt_conv_Cons)
  let ?pix = "take (dst_y * (w * 3)) pix @ U y @ drop (dst_y * (w * 3) + w * 3) pix"
  have "w * 3 \<le> length (frow y)" using len [OF y] assms(2) by simp
  then have unpack: "bmp_unpack_row w 3 3 (frow y) (dst_y * (w * 3)) 0 pix = Inr ?pix"
    using bmp_unpack_row_eq [of 0 w "frow y" "dst_y * (w * 3)" pix] room assms(3)
    by (simp add: U_def)
  have len': "length ?pix = h * (w * 3)" using room Suc.prems(2) lenU by simp
  have "bmp_read_rows False h w 3 3 (w * 3) R y (concat (map frow [y..<h]) @ rest) pix
      = bmp_read_rows False h w 3 3 (w * 3) R (Suc y) ?f' ?pix"
    using y rd unpack len [OF y]
    by (subst bmp_read_rows.simps) (simp add: dst_y_def Let_def)
  also have "\<dots> = Inr (concat (map (\<lambda>r. U (h - 1 - r)) [0..<h - Suc y])
      @ drop ((h - Suc y) * (w * 3)) ?pix)"
    using Suc.hyps(2) y len' unfolding U_def by (intro Suc.hyps(1)) simp_all
  also have "drop ((h - Suc y) * (w * 3)) ?pix = U y @ drop (dst_y * (w * 3) + w * 3) pix"
    using room by (simp add: hy)
  finally show ?case
    by (simp add: hy U_def add.commute)
qed

lemma and_not_3: "(t :: size_t) AND NOT 3 = push_bit 2 (drop_bit 2 t)"
proof (rule bit_word_eqI)
  fix n
  assume "n < LENGTH(64)"
  have 3: "(3 :: size_t) = mask 2" by (simp add: mask_eq_exp_minus_1)
  show "bit (t AND NOT 3) n = bit (push_bit 2 (drop_bit 2 t)) n"
  proof (cases "n < 2")
    case True
    then show ?thesis unfolding 3 by (simp add: bit_simps)
  next
    case False
    then have "2 + (n - 2) = n" by simp
    with False \<open>n < LENGTH(64)\<close> show ?thesis unfolding 3 by (simp add: bit_simps)
  qed
qed

lemma unat_and_not_3: "unat ((t :: size_t) AND NOT 3) = unat t div 4 * 4"
proof -
  have "unat t div 4 * 4 \<le> unat t" by simp
  also have "unat t < 2 ^ 64" using unsigned_less [of t] by simp
  finally have small: "take_bit 64 (unat t div 4 * 4) = unat t div 4 * 4"
    by (simp only: take_bit_nat_eq_self)
  have "unat (t AND NOT 3) = unat (push_bit 2 (drop_bit 2 t))"
    by (simp only: and_not_3)
  also have "\<dots> = take_bit LENGTH(64) (push_bit 2 (drop_bit 2 (unat t)))"
    by (simp only: unsigned_push_bit_eq unat_drop_bit_eq)
  also have "push_bit 2 (drop_bit 2 (unat t)) = unat t div 4 * 4"
    by (simp add: push_bit_eq_mult drop_bit_eq_div)
  finally show ?thesis using small by simp
qed

lemma le16_le16_bytes [simp]: "le16 (le16_bytes v @ r) = v"
proof (rule bit_word_eqI)
  fix n
  assume "n < LENGTH(16)"
  then consider "n < 8" | "8 \<le> n" "n < 16" by fastforce
  then show "bit (le16 (le16_bytes v @ r)) n = bit v n"
    unfolding le16_def le16_bytes_def
    by cases (auto simp: nth_append bit_simps not_less)
qed

lemma le32_le32_bytes [simp]: "le32 (le32_bytes v @ r) = v"
proof (rule bit_word_eqI)
  fix n
  assume "n < LENGTH(32)"
  then consider "n < 8" | "8 \<le> n" "n < 16" | "16 \<le> n" "n < 24" | "24 \<le> n" "n < 32"
    by fastforce
  then show "bit (le32 (le32_bytes v @ r)) n = bit v n"
    unfolding le32_def le32_bytes_def
    by cases (auto simp: nth_append bit_simps not_less)
qed

lemma length_le_bytes [simp]: "length (le16_bytes v) = 2" "length (le32_bytes w) = 4"
  by (simp_all add: le16_bytes_def le32_bytes_def)

lemma bmp_file_header_of_bytes: "bmp_file_header_of (bmp_file_header_bytes fh @ r) = fh"
  by (cases fh) (simp add: bmp_file_header_of_def bmp_file_header_bytes_def)

lemma bmp_info_header_of_bytes: "bmp_info_header_of (bmp_info_header_bytes ih @ r) = ih"
  by (cases ih) (simp add: bmp_info_header_of_def bmp_info_header_bytes_def)

lemma length_bmp_headers [simp]:
  "length (bmp_file_header_bytes fh) = 14" "length (bmp_info_header_bytes ih) = 40"
  by (simp_all add: bmp_file_header_bytes_def bmp_info_header_bytes_def)

lemma map_upt_shift: "map f [a..<a + w] = map (\<lambda>j. f (a + j)) [0..<w]"
proof (rule nth_equalityI)
  show "length (map f [a..<a + w]) = length (map (\<lambda>j. f (a + j)) [0..<w])" by simp
next
  fix i
  assume "i < length (map f [a..<a + w])"
  then have "i < w" by simp
  then show "map f [a..<a + w] ! i = map (\<lambda>j. f (a + j)) [0..<w] ! i" by simp
qed

lemma rows_flatten:
  "concat (map (\<lambda>r. concat (map (\<lambda>j. f (r * w + j)) [0..<w])) [0..<h]) = concat (map f [0..<h * w])"
proof (induction h)
  case 0
  then show ?case by simp
next
  case (Suc h)
  have "[0..<h * w + w] = [0..<h * w] @ [h * w..<h * w + w]"
    by (rule upt_add_eq_append) simp
  then have "concat (map f [0..<h * w + w])
      = concat (map f [0..<h * w]) @ concat (map f [h * w..<h * w + w])"
    by (simp only: map_append concat_append)
  also have "map f [h * w..<h * w + w] = map (\<lambda>j. f (h * w + j)) [0..<w]"
    by (rule map_upt_shift)
  finally have step: "concat (map f [0..<h * w + w])
      = concat (map f [0..<h * w]) @ concat (map (\<lambda>j. f (h * w + j)) [0..<w])" .
  have "concat (map (\<lambda>r. concat (map (\<lambda>j. f (r * w + j)) [0..<w])) [0..<Suc h])
      = concat (map (\<lambda>r. concat (map (\<lambda>j. f (r * w + j)) [0..<w])) [0..<h])
        @ concat (map (\<lambda>j. f (h * w + j)) [0..<w])"
    by simp
  also have "\<dots> = concat (map f [0..<h * w + w])"
    by (simp only: Suc.IH step)
  also have "h * w + w = Suc h * w" by simp
  finally show ?case .
qed

lemma rgb_pixels_3:
  assumes "n * 3 \<le> length buf"
  shows "rgb_pixels buf 3 n = take (n * 3) buf"
  using assms
proof (induction n)
  case 0
  then show ?case by (simp add: rgb_pixels_def)
next
  case (Suc n)
  then have "n * 3 + 2 < length buf" by simp
  then have "take (Suc n * 3) buf = take (n * 3) buf @ rgb_at buf (n * 3)"
    by (simp add: rgb_at_def take_Suc_conv_app_nth numeral_3_eq_3)
  moreover have "rgb_pixels buf 3 n = take (n * 3) buf" using Suc by simp
  ultimately show ?case by (simp add: rgb_pixels_def)
qed

lemma rev_upt_map: "rev [0..<n] = map (\<lambda>i. n - 1 - i) [0..<n]"
  by (rule nth_equalityI) (simp_all add: rev_nth)

lemma unpack_packed_rows:
  "concat (map (\<lambda>r. concat (map (\<lambda>j. bgr_at (bmp_row buf w ch (h - 1 - (h - 1 - r)) @ pad) (j * 3))
        [0..<w])) [0..<h])
   = rgb_pixels buf ch (h * w)"
proof -
  have px: "bgr_at (bmp_row buf w ch r @ pad) (j * 3) = rgb_at buf ((r * w + j) * ch)"
    if "j < w" for j r
    using bgr_at_packed [OF that, of buf "r * (w * ch)" ch pad]
    by (simp add: bmp_row_def add_mult_distrib mult.assoc)
  have row: "concat (map (\<lambda>j. bgr_at (bmp_row buf w ch (h - 1 - (h - 1 - r)) @ pad) (j * 3)) [0..<w])
      = concat (map (\<lambda>j. rgb_at buf ((r * w + j) * ch)) [0..<w])" if "r < h" for r
  proof -
    from that have r: "h - 1 - (h - 1 - r) = r" by simp
    show ?thesis
      unfolding r by (intro arg_cong [where f = concat] map_cong refl px) simp
  qed
  have "concat (map (\<lambda>r. concat (map (\<lambda>j. bgr_at (bmp_row buf w ch (h - 1 - (h - 1 - r)) @ pad)
        (j * 3)) [0..<w])) [0..<h])
      = concat (map (\<lambda>r. concat (map (\<lambda>j. rgb_at buf ((r * w + j) * ch)) [0..<w])) [0..<h])"
    by (intro arg_cong [where f = concat] map_cong refl row) simp
  also have "\<dots> = concat (map (\<lambda>i. rgb_at buf (i * ch)) [0..<h * w])"
    by (rule rows_flatten)
  finally show ?thesis by (simp only: rgb_pixels_def)
qed

lemma bmp_write_InrD:
  assumes w: "bmp_write malloc img = Inr bytes" and buf: "pixels img = Some buf"
  shows "\<exists>raw tmp srb row0 fh ih.
     image_validate_dims img
     \<and> checked_mul_size (size_of_int (width img)) 3 = Some raw
     \<and> checked_add_size raw 3 = Some tmp
     \<and> calloc malloc (tmp AND NOT 3) = Some row0
     \<and> checked_mul_size (size_of_int (width img)) (size_of_int (channels img)) = Some srb
     \<and> fh_type fh = 0x4D42 \<and> fh_offset fh = 54
     \<and> ih_width ih = width img \<and> ih_height ih = height img \<and> ih_bit_count ih = 24
     \<and> ih_compression ih = 0
     \<and> bmp_write_rows (nat (sint (width img))) (nat (sint (channels img))) (unat srb) buf
           (nat (sint (height img))) row0 (bmp_file_header_bytes fh @ bmp_info_header_bytes ih)
         = Inr bytes"
proof -
  from w have dims: "image_validate_dims img"
    by (auto simp: bmp_write_def split: if_splits)
  from w dims obtain raw where raw: "checked_mul_size (size_of_int (width img)) 3 = Some raw"
    by (cases "checked_mul_size (size_of_int (width img)) (3 :: size_t)")
      (auto simp: bmp_write_def)
  from w dims raw obtain tmp where tmp: "checked_add_size raw 3 = Some tmp"
    by (cases "checked_add_size raw 3") (auto simp: bmp_write_def)
  define R where "R = tmp AND NOT 3"
  from w dims raw tmp have R: "R \<noteq> 0"
    by (auto simp: bmp_write_def Let_def R_def split: if_splits)
  from w dims raw tmp R obtain isz where
    isz: "checked_mul_size R (size_of_int (height img)) = Some isz"
    by (cases "checked_mul_size R (size_of_int (height img))")
      (auto simp: bmp_write_def Let_def R_def)
  from w dims raw tmp R isz have lim: "\<not> isz > 0xFFFFFFFF - (14 + 40)"
    by (auto simp: bmp_write_def Let_def R_def split: if_splits)
  from w dims raw tmp R isz lim obtain row0 where row0: "calloc malloc R = Some row0"
    by (cases "calloc malloc R") (auto simp: bmp_write_def Let_def R_def)
  from w dims raw tmp R isz lim row0 obtain srb where
    srb: "checked_mul_size (size_of_int (width img)) (size_of_int (channels img)) = Some srb"
    by (cases "checked_mul_size (size_of_int (width img)) (size_of_int (channels img))")
      (auto simp: bmp_write_def Let_def R_def)
  define fh where "fh = \<lparr>fh_type = 0x4D42, fh_size = ucast (14 + 40 + isz),
      fh_reserved1 = 0, fh_reserved2 = 0, fh_offset = 14 + 40\<rparr>"
  define ih where "ih = \<lparr>ih_size = 40, ih_width = width img, ih_height = height img,
      ih_planes = 1, ih_bit_count = 24, ih_compression = 0,
      ih_image_size = ucast isz, ih_x_pels_per_meter = 0,
      ih_y_pels_per_meter = 0, ih_clr_used = 0, ih_clr_important = 0\<rparr>"
  from w dims raw tmp R isz lim row0 srb buf have
    "bmp_write_rows (nat (sint (width img))) (nat (sint (channels img))) (unat srb) buf
       (nat (sint (height img))) row0 (bmp_file_header_bytes fh @ bmp_info_header_bytes ih)
     = Inr bytes"
    by (simp add: bmp_write_def Let_def R_def fh_def ih_def)
  moreover have "fh_type fh = 0x4D42" "fh_offset fh = 54" "ih_width ih = width img"
    "ih_height ih = height img" "ih_bit_count ih = 24" "ih_compression ih = 0"
    by (simp_all add: fh_def ih_def)
  ultimately show ?thesis
    using dims raw tmp row0 srb unfolding R_def by blast
qed

lemma calloc_SomeD:
  assumes "malloc_spec malloc" "calloc malloc n = Some row"
  shows "length row = unat n" "malloc n \<noteq> None"
  using assms by (auto simp: calloc_def malloc_spec_def)

lemma bmp_read_written:
  assumes heap: "malloc_spec malloc"
    and buf: "pixels img = Some buf"
      "length buf = nat (sint (width img)) * nat (sint (height img)) * nat (sint (channels img))"
    and ceiling: "image_check_max_pixels c (width img) (height img)"
    and written: "bmp_write malloc img = Inr bytes"
    and room: "malloc (word_of_nat (nat (sint (width img)) * 3 * nat (sint (height img)))) \<noteq> None"
  shows "bmp_read malloc c bytes =
     Inr \<lparr>pixels = Some (rgb_pixels buf (nat (sint (channels img)))
               (nat (sint (height img)) * nat (sint (width img)))),
          width = width img, height = height img, channels = 3\<rparr>"
proof -
  define W H C where "W = nat (sint (width img))" and "H = nat (sint (height img))"
    and "C = nat (sint (channels img))"
  from bmp_write_InrD [OF written buf(1)] obtain raw tmp srb row0 fh ih where
    dims: "image_validate_dims img"
    and raw: "checked_mul_size (size_of_int (width img)) 3 = Some raw"
    and tmp: "checked_add_size raw 3 = Some tmp"
    and row0: "calloc malloc (tmp AND NOT 3) = Some row0"
    and srb: "checked_mul_size (size_of_int (width img)) (size_of_int (channels img)) = Some srb"
    and fh: "fh_type fh = 0x4D42" "fh_offset fh = 54"
    and ih: "ih_width ih = width img" "ih_height ih = height img" "ih_bit_count ih = 24"
      "ih_compression ih = 0"
    and rows: "bmp_write_rows W C (unat srb) buf H row0
        (bmp_file_header_bytes fh @ bmp_info_header_bytes ih) = Inr bytes"
    unfolding W_def H_def C_def by blast
  define R where "R = tmp AND NOT 3"
  from dims have pos: "0 < sint (width img)" "0 < sint (height img)"
    and chans: "channels img = 3 \<or> channels img = 4"
    by (auto simp: image_validate_dims_def word_sless_alt)
  then have nn: "0 \<le> sint (width img)" "0 \<le> sint (height img)" by simp_all
  have WH: "0 < W" "0 < H" "W < 2 ^ 31" "H < 2 ^ 31"
    using pos sint_c_int_bound [of "width img"] sint_c_int_bound [of "height img"]
    by (simp_all add: W_def H_def)
  have C: "C = 3 \<or> C = 4" using channels_byte(3) [OF chans] by (simp add: C_def)
  have uW: "unat (size_of_int (width img)) = W" "unat (size_of_int (height img)) = H"
    using nn by (simp_all add: unat_size_of_int W_def H_def)
  have uC: "unat (size_of_int (channels img)) = C"
    using chans by (auto simp: unat_size_of_int C_def)
  have usrb: "unat srb = W * C"
    using checked_mul_size_SomeD [OF srb, THEN conjunct2] by (simp add: uW uC)
  have uraw: "unat raw = W * 3"
    using checked_mul_size_SomeD [OF raw, THEN conjunct2] by (simp add: uW)
  have utmp: "unat tmp = W * 3 + 3"
    using tmp by (simp add: checked_add_size_Some_iff uraw)
  have uR: "unat R = (W * 3 + 3) div 4 * 4"
    unfolding R_def by (simp only: unat_and_not_3 utmp)
  then have R_ge: "W * 3 \<le> unat R" by simp
  note r0 = calloc_SomeD [OF heap row0, folded R_def]
  have len_buf: "H * (W * C) \<le> length buf" using buf(2) by (simp add: W_def H_def C_def)
  have no_overflow: "int ((W - 1) * C + 2) \<le> INT_MAX"
  proof (rule ccontr)
    assume "\<not> int ((W - 1) * C + 2) \<le> INT_MAX"
    then have "INT_MAX < int ((W - 1) * C + 2)" by simp
    from bmp_write_rows_overflow [OF WH(1,2) this] rows show False by simp
  qed
  have "(W - 1) * 3 + 2 \<le> (W - 1) * C + 2" using C by auto
  then have "int ((W - 1) * 3 + 2) \<le> int ((W - 1) * C + 2)" by (simp only: of_nat_le_iff)
  with no_overflow have no_overflow3: "int ((W - 1) * 3 + 2) \<le> INT_MAX" by linarith
  define pad where "pad = drop (W * 3) row0"
  have len_pad: "W * 3 + length pad = unat R" using r0(1) R_ge by (simp add: pad_def)
  define frow where "frow = (\<lambda>i. bmp_row buf W C (H - 1 - i) @ pad)"
  have "bmp_write_rows W C (W * C) buf H row0
      (bmp_file_header_bytes fh @ bmp_info_header_bytes ih)
      = Inr ((bmp_file_header_bytes fh @ bmp_info_header_bytes ih)
          @ concat (map (\<lambda>y. bmp_row buf W C y @ drop (W * 3) row0) (rev [0..<H])))"
    using r0(1) R_ge len_buf C no_overflow by (intro bmp_write_rows_eq) simp_all
  with rows have bytes: "bytes = bmp_file_header_bytes fh @ bmp_info_header_bytes ih
      @ concat (map frow [0..<H])"
    by (simp add: usrb rev_upt_map frow_def pad_def comp_def)
  have rd1: "READ_FILE 14 bytes = (bmp_file_header_bytes fh,
      bmp_info_header_bytes ih @ concat (map frow [0..<H]))"
    by (simp add: READ_FILE_def bytes)
  have rd2: "READ_FILE 40 (bmp_info_header_bytes ih @ concat (map frow [0..<H]))
      = (bmp_info_header_bytes ih, concat (map frow [0..<H]))"
    by (simp add: READ_FILE_def)
  have hd: "bmp_file_header_of (bmp_file_header_bytes fh) = fh"
    "bmp_info_header_of (bmp_info_header_bytes ih) = ih"
    using bmp_file_header_of_bytes [of fh "[]"] bmp_info_header_of_bytes [of ih "[]"]
    by simp_all
  have seek: "drop (unat (fh_offset fh)) bytes = concat (map frow [0..<H]) @ []"
    by (simp add: fh bytes)
  let ?img = "\<lparr>pixels = None, width = width img, height = height img, channels = 3\<rparr>"
  have dims': "image_validate_dims ?img"
    using dims by (simp add: image_validate_dims_def)
  have "unat (size_of_int (width img)) * unat (size_of_int (3 :: c_int)) < 2 ^ 64"
    by (rule c_int_product_fits) (use nn in simp_all)
  then have rb: "checked_mul_size (size_of_int (width img)) (size_of_int (3 :: c_int))
      = Some raw"
    using raw by (simp add: size_of_int_def)
  have "W * 3 \<le> 2 ^ 31 * 3" "H \<le> 2 ^ 31" using WH by simp_all
  then have "W * 3 * H \<le> (2 ^ 31 * 3) * 2 ^ 31" by (rule mult_le_mono)
  also have "\<dots> < (2 :: nat) ^ 64" by simp
  finally have fits: "unat raw * nat (sint (height img)) < 2 ^ 64"
    unfolding uraw H_def [symmetric] .
  have "raw \<noteq> 0" using uraw WH(1) by (auto simp: unat_eq_zero [symmetric] simp del: unat_eq_zero)
  from room obtain pix0 where pix0: "malloc (word_of_nat (W * 3 * H)) = Some pix0"
    unfolding W_def H_def by auto
  with heap have "length pix0 = unat (word_of_nat (W * 3 * H) :: size_t)"
    by (auto simp: malloc_spec_def)
  moreover have "W * 3 * H < 2 ^ 64" using fits by (simp add: uraw H_def)
  ultimately have len_pix0: "length pix0 = H * (W * 3)"
    by (simp only: unat_word_of_nat_size mult.commute mult.assoc)
  have alloc: "image_alloc_pixels malloc c ?img raw = (True, ?img\<lparr>pixels := Some pix0\<rparr>)"
    using dims' \<open>raw \<noteq> 0\<close> ceiling fits pix0
    by (simp add: image_alloc_pixels_eq uraw H_def)
  have len_frow: "length (frow i) = unat R" for i
    using len_pad by (simp add: frow_def)
  have loop: "bmp_read_rows False H W 3 3 (W * 3) (unat R) 0 (concat (map frow [0..<H]) @ []) pix0
      = Inr (concat (map (\<lambda>r. concat (map (\<lambda>j. bgr_at (frow (H - 1 - r)) (j * 3)) [0..<W]))
          [0..<H - 0]) @ drop ((H - 0) * (W * 3)) pix0)"
    using len_frow R_ge no_overflow3 len_pix0 by (intro bmp_read_rows_eq) simp_all
  have out: "concat (map (\<lambda>r. concat (map (\<lambda>j. bgr_at (frow (H - 1 - r)) (j * 3)) [0..<W]))
      [0..<H]) = rgb_pixels buf C (H * W)"
    unfolding frow_def by (rule unpack_packed_rows)
  have loop': "bmp_read_rows False H W 3 3 (W * 3) (unat R) 0 (concat (map frow [0..<H])) pix0
      = Inr (rgb_pixels buf C (H * W))"
    using loop out len_pix0 by simp
  obtain rowbuf where rowbuf: "malloc R = Some rowbuf" using r0(2) by auto
  have top: "\<not> height img <s 0" "\<not> width img \<le>s 0" "\<not> INT_MAX < sint (width img)"
    "height img \<noteq> 0" "height img \<noteq> INT32_MIN"
    using pos sint_c_int_bound [of "width img"]
    by (auto simp: word_sless_alt word_sle_eq INT_MAX_def INT32_MIN_def)
  have three: "nat (sint (3 :: c_int)) = 3" "unat (24 :: 16 word) div 8 = 3" by simp_all
  show ?thesis
    unfolding bmp_read_def rd1 rd2 prod.case hd Let_def
    using fh ih top dims' ceiling rb alloc raw tmp rowbuf [unfolded R_def]
      loop' [unfolded R_def W_def H_def C_def] seek [unfolded H_def]
    by (simp add: uraw [unfolded W_def] three)
qed

lemma rgb_pixels_nth:
  assumes "i < n" "k < 3"
  shows "rgb_pixels buf ch n ! (i * 3 + k) = buf ! (i * ch + k)"
proof -
  have "(concat (map (\<lambda>i. rgb_at buf (i * ch)) [0..<n]) @ []) ! (i * 3 + k)
      = rgb_at buf (i * ch) ! k"
    using assms by (intro nth_concat_map3) (simp_all add: rgb_at_def)
  moreover from assms(2) have "k = 0 \<or> k = 1 \<or> k = 2" by auto
  ultimately show ?thesis by (auto simp: rgb_pixels_def rgb_at_def)
qed

lemma length_rgb_pixels: "length (rgb_pixels buf ch n) = n * 3"
  unfolding rgb_pixels_def using length_concat_map3 [of "\<lambda>i. rgb_at buf (i * ch)" 0 n]
  by (simp add: rgb_at_def)

lemma bmp_write_succeeds:
  assumes heap: "malloc_spec malloc"
    and dims: "image_validate_dims img"
    and buf: "pixels img = Some buf"
      "length buf = nat (sint (width img)) * nat (sint (height img)) * nat (sint (channels img))"
    and size: "(nat (sint (width img)) * 3 + 3) div 4 * 4 * nat (sint (height img)) + 54
        \<le> 4294967295"
    and no_overflow: "int ((nat (sint (width img)) - 1) * nat (sint (channels img)) + 2) \<le> INT_MAX"
    and room: "malloc (word_of_nat ((nat (sint (width img)) * 3 + 3) div 4 * 4)) \<noteq> None"
  shows "\<exists>bytes. bmp_write malloc img = Inr bytes"
proof -
  define W H C where "W = nat (sint (width img))" and "H = nat (sint (height img))"
    and "C = nat (sint (channels img))"
  from dims have pos: "0 < sint (width img)" "0 < sint (height img)"
    and chans: "channels img = 3 \<or> channels img = 4"
    by (auto simp: image_validate_dims_def word_sless_alt)
  then have nn: "0 \<le> sint (width img)" "0 \<le> sint (height img)" by simp_all
  have WH: "0 < W" "0 < H" "W < 2 ^ 31" "H < 2 ^ 31"
    using pos sint_c_int_bound [of "width img"] sint_c_int_bound [of "height img"]
    by (simp_all add: W_def H_def)
  have C: "C = 3 \<or> C = 4" using channels_byte(3) [OF chans] by (simp add: C_def)
  have uW: "unat (size_of_int (width img)) = W" "unat (size_of_int (height img)) = H"
    using nn by (simp_all add: unat_size_of_int W_def H_def)
  have uC: "unat (size_of_int (channels img)) = C"
    using chans by (auto simp: unat_size_of_int C_def)
  define raw where "raw = size_of_int (width img) * 3"
  have "unat (size_of_int (width img)) * unat (3 :: size_t) < 2 ^ 64"
    using WH(3) by (simp add: uW)
  then have raw: "checked_mul_size (size_of_int (width img)) 3 = Some raw"
    by (simp add: checked_mul_size_eq raw_def)
  have uraw: "unat raw = W * 3"
    using checked_mul_size_SomeD [OF raw, THEN conjunct2] by (simp add: uW)
  define tmp where "tmp = raw + 3"
  have "unat raw + unat (3 :: size_t) < 2 ^ 64" using WH(3) by (simp add: uraw)
  then have tmp: "checked_add_size raw 3 = Some tmp"
    by (simp add: checked_add_size_eq tmp_def)
  have utmp: "unat tmp = W * 3 + 3"
    using tmp by (simp add: checked_add_size_Some_iff uraw)
  define R where "R = tmp AND NOT 3"
  have uR: "unat R = (W * 3 + 3) div 4 * 4"
    unfolding R_def by (simp only: unat_and_not_3 utmp)
  then have R_ge: "W * 3 \<le> unat R" by simp
  have "0 < unat R" using uR WH(1) by simp
  then have R0: "R \<noteq> 0" by (auto simp: unat_gt_0)
  define isz where "isz = R * size_of_int (height img)"
  have small: "unat R * H + 54 \<le> 4294967295"
    using size unfolding uR W_def H_def .
  then have "unat R * unat (size_of_int (height img)) < 2 ^ 64" by (simp add: uW)
  then have isz: "checked_mul_size R (size_of_int (height img)) = Some isz"
    by (simp add: checked_mul_size_eq isz_def)
  have uisz: "unat isz = unat R * H"
    using checked_mul_size_SomeD [OF isz, THEN conjunct2] by (simp add: uW)
  have lim: "\<not> isz > 0xFFFFFFFF - (14 + 40)"
    using small by (simp add: word_less_nat_alt uisz)
  have wR: "word_of_nat ((W * 3 + 3) div 4 * 4) = R"
    using uR by (metis of_nat_unat ucast_id)
  from room obtain m where m: "malloc R = Some m" unfolding wR W_def [symmetric] by auto
  then obtain row0 where row0: "calloc malloc R = Some row0" and "length row0 = length m"
    by (simp add: calloc_def)
  with heap m have len0: "length row0 = unat R" by (simp add: malloc_spec_def)
  define srb where "srb = size_of_int (width img) * size_of_int (channels img)"
  have "unat (size_of_int (width img)) * unat (size_of_int (channels img)) < 2 ^ 64"
    using WH(3) C by (auto simp: uW uC)
  then have srb: "checked_mul_size (size_of_int (width img)) (size_of_int (channels img))
      = Some srb"
    by (simp add: checked_mul_size_eq srb_def)
  have usrb: "unat srb = W * C"
    using checked_mul_size_SomeD [OF srb, THEN conjunct2] by (simp add: uW uC)
  have len_buf: "H * (W * C) \<le> length buf" using buf(2) by (simp add: W_def H_def C_def)
  define out where "out = bmp_file_header_bytes
      \<lparr>fh_type = 0x4D42, fh_size = ucast (14 + 40 + isz),
       fh_reserved1 = 0, fh_reserved2 = 0, fh_offset = 14 + 40\<rparr>
    @ bmp_info_header_bytes
      \<lparr>ih_size = 40, ih_width = width img, ih_height = height img,
       ih_planes = 1, ih_bit_count = 24, ih_compression = 0,
       ih_image_size = ucast isz, ih_x_pels_per_meter = 0,
       ih_y_pels_per_meter = 0, ih_clr_used = 0, ih_clr_important = 0\<rparr>"
  have rows: "bmp_write_rows W C (W * C) buf H row0 out
      = Inr (out @ concat (map (\<lambda>y. bmp_row buf W C y @ drop (W * 3) row0) (rev [0..<H])))"
    using len0 R_ge len_buf C no_overflow [folded W_def C_def]
    by (intro bmp_write_rows_eq) simp_all
  have "bmp_write malloc img
      = Inr (out @ concat (map (\<lambda>y. bmp_row buf W C y @ drop (W * 3) row0) (rev [0..<H])))"
    unfolding bmp_write_def Let_def
    using dims raw tmp R0 [unfolded R_def] isz [unfolded R_def] lim row0 [unfolded R_def] srb
      buf(1) rows [unfolded W_def H_def C_def out_def]
    by (simp add: usrb [unfolded W_def C_def] out_def W_def H_def C_def)
  then show ?thesis by blast
qed

text \<open>
  Claim C5. Let an image have positive width and height, 3 or 4 channels, a pixel buffer
  of exactly width * height * channels bytes, and a pixel count that passes the ceiling
  check. Whenever \<open>bmp_write\<close> produces a file for it, \<open>bmp_read\<close> succeeds on that file
  and returns an image of the same width and height with 3 channels whose pixels are the
  red, green and blue bytes of the pixels of the source, in order, without its alpha
  bytes; for a source with 3 channels that is the source itself. The allocator is taken
  to grant the decoder its pixel buffer. \<open>bmp_write\<close> does produce a file whenever the
  padded rows and the headers fit in 32 bits, the byte offset of the last pixel of a row
  fits in \<open>int\<close>, and its row buffer is granted.
\<close>

theorem bmp_round_trip:
  assumes "malloc_spec malloc"
    and "image_validate_dims img"
    and "pixels img = Some buf"
      "length buf = nat (sint (width img)) * nat (sint (height img)) * nat (sint (channels img))"
    and "image_check_max_pixels c (width img) (height img)"
    and "malloc (word_of_nat (nat (sint (width img)) * 3 * nat (sint (height img)))) \<noteq> None"
  shows "(\<forall>bytes. bmp_write malloc img = Inr bytes \<longrightarrow>
            bmp_read malloc c bytes =
              Inr \<lparr>pixels = Some (rgb_pixels buf (nat (sint (channels img)))
                       (nat (sint (height img)) * nat (sint (width img)))),
                   width = width img, height = height img, channels = 3\<rparr>
            \<and> (channels img = 3 \<longrightarrow> bmp_read malloc c bytes = Inr img))
     \<and> ((nat (sint (width img)) * 3 + 3) div 4 * 4 * nat (sint (height img)) + 54 \<le> 4294967295
          \<and> int ((nat (sint (width img)) - 1) * nat (sint (channels img)) + 2) \<le> INT_MAX
          \<and> malloc (word_of_nat ((nat (sint (width img)) * 3 + 3) div 4 * 4)) \<noteq> None
        \<longrightarrow> (\<exists>bytes. bmp_write malloc img = Inr bytes))"
proof (intro conjI allI impI)
  fix bytes
  assume w: "bmp_write malloc img = Inr bytes"
  show r: "bmp_read malloc c bytes =
      Inr \<lparr>pixels = Some (rgb_pixels buf (nat (sint (channels img)))
               (nat (sint (height img)) * nat (sint (width img)))),
           width = width img, height = height img, channels = 3\<rparr>"
    using assms(1,3,4,5) w assms(6) by (rule bmp_read_written)
  assume three: "channels img = 3"
  then have "nat (sint (channels img)) = 3" by simp
  moreover from this assms(4) have "rgb_pixels buf 3 (nat (sint (height img)) * nat (sint (width img)))
      = take (nat (sint (height img)) * nat (sint (width img)) * 3) buf"
    by (intro rgb_pixels_3) (simp add: mult.commute)
  moreover have "take (nat (sint (height img)) * nat (sint (width img)) * 3) buf = buf"
    using assms(4) \<open>nat (sint (channels img)) = 3\<close> by (simp add: mult.commute)
  moreover have "img = \<lparr>pixels = Some buf, width = width img, height = height img, channels = 3\<rparr>"
    using assms(3) three by (cases img) simp
  ultimately show "bmp_read malloc c bytes = Inr img" using r by simp
next
  assume "(nat (sint (width img)) * 3 + 3) div 4 * 4 * nat (sint (height img)) + 54 \<le> 4294967295
      \<and> int ((nat (sint (width img)) - 1) * nat (sint (channels img)) + 2) \<le> INT_MAX
      \<and> malloc (word_of_nat ((nat (sint (width img)) * 3 + 3) div 4 * 4)) \<noteq> None"
  with assms(1,2,3,4) show "\<exists>bytes. bmp_write malloc img = Inr bytes"
    by (intro bmp_write_succeeds) simp_all
qed

theorem bmp_round_trip_witness:
  "bmp_write small_heap
      \<lparr>pixels = Some [1, 2, 3, 4, 5, 6, 7, 8, 9, 10, 11, 12, 13, 14, 15, 16, 17, 18],
       width = 3, height = 2, channels = 3\<rparr>
     = Inr [66, 77, 78, 0, 0, 0, 0, 0, 0, 0, 54, 0, 0, 0, 40, 0, 0, 0, 3, 0, 0, 0,
            2, 0, 0, 0, 1, 0, 24, 0, 0, 0, 0, 0, 24, 0, 0, 0, 0, 0, 0, 0, 0, 0, 0,
            0, 0, 0, 0, 0, 0, 0, 0, 0, 12, 11, 10, 15, 14, 13, 18, 17, 16, 0, 0,
            0, 3, 2, 1, 6, 5, 4, 9, 8, 7, 0, 0, 0]
   \<and> bmp_read small_heap 100
       [66, 77, 78, 0, 0, 0, 0, 0, 0, 0, 54, 0, 0, 0, 40, 0, 0, 0, 3, 0, 0, 0,
        2, 0, 0, 0, 1, 0, 24, 0, 0, 0, 0, 0, 24, 0, 0, 0, 0, 0, 0, 0, 0, 0, 0,
        0, 0, 0, 0, 0, 0, 0, 0, 0, 12, 11, 10, 15, 14, 13, 18, 17, 16, 0, 0,
        0, 3, 2, 1, 6, 5, 4, 9, 8, 7, 0, 0, 0]
     = Inr \<lparr>pixels = Some [1, 2, 3, 4, 5, 6, 7, 8, 9, 10, 11, 12, 13, 14, 15, 16, 17, 18],
            width = 3, height = 2, channels = 3\<rparr>
   \<and> bmp_write small_heap
      \<lparr>pixels = Some [1, 2, 3, 100, 4, 5, 6, 101, 7, 8, 9, 102, 10, 11, 12, 103,
                      13, 14, 15, 104, 16, 17, 18, 105],
       width = 2, height = 3, channels = 4\<rparr>
     = Inr [66, 77, 78, 0, 0, 0, 0, 0, 0, 0, 54, 0, 0, 0, 40, 0, 0, 0, 2, 0, 0, 0,
            3, 0, 0, 0, 1, 0, 24, 0, 0, 0, 0, 0, 24, 0, 0, 0, 0, 0, 0, 0, 0, 0, 0,
            0, 0, 0, 0, 0, 0, 0, 0, 0, 15, 14, 13, 18, 17, 16, 0, 0, 9, 8, 7, 12,
            11, 10, 0, 0, 3, 2, 1, 6, 5, 4, 0, 0]
   \<and> bmp_read small_heap 100
       [66, 77, 78, 0, 0, 0, 0, 0, 0, 0, 54, 0, 0, 0, 40, 0, 0, 0, 2, 0, 0, 0,
        3, 0, 0, 0, 1, 0, 24, 0, 0, 0, 0, 0, 24, 0, 0, 0, 0, 0, 0, 0, 0, 0, 0,
        0, 0, 0, 0, 0, 0, 0, 0, 0, 15, 14, 13, 18, 17, 16, 0, 0, 9, 8, 7, 12,
        11, 10, 0, 0, 3, 2, 1, 6, 5, 4, 0, 0]
     = Inr \<lparr>pixels = Some [1, 2, 3, 4, 5, 6, 7, 8, 9, 10, 11, 12, 13, 14, 15, 16, 17, 18],
            width = 2, height = 3, channels = 3\<rparr>"
proof -
  let ?buf3 = "[1, 2, 3, 4, 5, 6, 7, 8, 9, 10, 11, 12, 13, 14, 15, 16, 17, 18 :: byte]"
  let ?img3 = "\<lparr>pixels = Some ?buf3, width = 3, height = 2, channels = 3\<rparr>"
  let ?buf4 = "[1, 2, 3, 100, 4, 5, 6, 101, 7, 8, 9, 102, 10, 11, 12, 103,
      13, 14, 15, 104, 16, 17, 18, 105 :: byte]"
  let ?img4 = "\<lparr>pixels = Some ?buf4, width = 2, height = 3, channels = 4\<rparr>"
  have w3: "bmp_write small_heap ?img3
     = Inr [66, 77, 78, 0, 0, 0, 0, 0, 0, 0, 54, 0, 0, 0, 40, 0, 0, 0, 3, 0, 0, 0,
            2, 0, 0, 0, 1, 0, 24, 0, 0, 0, 0, 0, 24, 0, 0, 0, 0, 0, 0, 0, 0, 0, 0,
            0, 0, 0, 0, 0, 0, 0, 0, 0, 12, 11, 10, 15, 14, 13, 18, 17, 16, 0, 0,
            0, 3, 2, 1, 6, 5, 4, 9, 8, 7, 0, 0, 0]"
    by code_simp
  have w4: "bmp_write small_heap ?img4
     = Inr [66, 77, 78, 0, 0, 0, 0, 0, 0, 0, 54, 0, 0, 0, 40, 0, 0, 0, 2, 0, 0, 0,
            3, 0, 0, 0, 1, 0, 24, 0, 0, 0, 0, 0, 24, 0, 0, 0, 0, 0, 0, 0, 0, 0, 0,
            0, 0, 0, 0, 0, 0, 0, 0, 0, 15, 14, 13, 18, 17, 16, 0, 0, 9, 8, 7, 12,
            11, 10, 0, 0, 3, 2, 1, 6, 5, 4, 0, 0]"
    by code_simp
  have h: "malloc_spec small_heap" by (rule small_heap_spec)
  have d: "image_validate_dims ?img3" "image_validate_dims ?img4"
    by (simp_all add: image_validate_dims_def word_sless_alt)
  have l: "length ?buf3 = nat (sint (width ?img3)) * nat (sint (height ?img3))
      * nat (sint (channels ?img3))"
    "length ?buf4 = nat (sint (width ?img4)) * nat (sint (height ?img4))
      * nat (sint (channels ?img4))"
    by simp_all
  have c: "image_check_max_pixels 100 (width ?img3) (height ?img3)"
    "image_check_max_pixels 100 (width ?img4) (height ?img4)"
    by (simp_all add: image_check_max_pixels_def checked_mul_size_def SIZE_MAX_def
        size_of_int_def word_le_nat_alt unat_div)
  have r: "small_heap (word_of_nat (nat (sint (width ?img3)) * 3 * nat (sint (height ?img3))))
      \<noteq> None"
    "small_heap (word_of_nat (nat (sint (width ?img4)) * 3 * nat (sint (height ?img4))))
      \<noteq> None"
    by (simp_all add: small_heap_def)
  have p: "rgb_pixels ?buf4 4 6 = ?buf3"
    by (simp add: rgb_pixels_def rgb_at_def upt_rec)
  have b: "pixels ?img3 = Some ?buf3" "pixels ?img4 = Some ?buf4" by simp_all
  from bmp_round_trip [of small_heap ?img3 ?buf3 100, OF h d(1) b(1) l(1) c(1) r(1),
      THEN conjunct1, rule_format, OF w3, THEN conjunct2]
  have "bmp_read small_heap 100
       [66, 77, 78, 0, 0, 0, 0, 0, 0, 0, 54, 0, 0, 0, 40, 0, 0, 0, 3, 0, 0, 0,
        2, 0, 0, 0, 1, 0, 24, 0, 0, 0, 0, 0, 24, 0, 0, 0, 0, 0, 0, 0, 0, 0, 0,
        0, 0, 0, 0, 0, 0, 0, 0, 0, 12, 11, 10, 15, 14, 13, 18, 17, 16, 0, 0,
        0, 3, 2, 1, 6, 5, 4, 9, 8, 7, 0, 0, 0] = Inr ?img3"
    by simp
  moreover
  from bmp_round_trip [of small_heap ?img4 ?buf4 100, OF h d(2) b(2) l(2) c(2) r(2),
      THEN conjunct1, rule_format, OF w4, THEN conjunct1] p
  have "bmp_read small_heap 100
       [66, 77, 78, 0, 0, 0, 0, 0, 0, 0, 54, 0, 0, 0, 40, 0, 0, 0, 2, 0, 0, 0,
        3, 0, 0, 0, 1, 0, 24, 0, 0, 0, 0, 0, 24, 0, 0, 0, 0, 0, 0, 0, 0, 0, 0,
        0, 0, 0, 0, 0, 0, 0, 0, 0, 15, 14, 13, 18, 17, 16, 0, 0, 9, 8, 7, 12,
        11, 10, 0, 0, 3, 2, 1, 6, 5, 4, 0, 0]
     = Inr \<lparr>pixels = Some ?buf3, width = 2, height = 3, channels = 3\<rparr>"
    by simp
  ultimately show ?thesis using w3 w4 by simp
qed

end
